theory Spec2Isabelle
  imports Main "HOL-Library.Word"
begin

section \<open>Data model of the LBR kernel module (libiht\_lkm.c)\<close>

text \<open>
  The module keeps one \<open>struct lbr_state\<close> per traced process in a circular
  doubly-linked list whose anchor is the global \<open>lbr_state_list\<close>. The objects live
  in \<open>kmalloc\<close>'ed storage and are linked by raw pointers, so the model has an explicit
  store: a map from addresses to objects. A pointer is an address, \<open>NULL\<close> is 0.
\<close>

type_synonym u32 = "32 word"
type_synonym u64 = "64 word"
type_synonym addr = nat

abbreviation NULL :: addr where "NULL \<equiv> 0"

text \<open>\<open>struct lbr_stack_entry\<close> is a pair \<open>(from, to)\<close>; \<open>entries\<close> is the array that
  follows the header of \<open>struct lbr_state\<close> (\<open>create_lbr_state\<close> allocates
  \<open>lbr_capacity\<close> of them).\<close>

type_synonym lbr_stack_entry = "u64 \<times> u64"

record lbr_state =
  lbr_select :: u64
  lbr_tos :: u64
  entries :: "lbr_stack_entry list"
  pid :: u32
  prev :: addr
  "next" :: addr
  parent :: addr

text \<open>\<open>struct ioctl_request\<close>, as \<open>device_ioctl\<close> reads it.\<close>

record ioctl_request =
  req_lbr_select :: u64
  req_pid :: u32

text \<open>
  The header \<open>libiht_lkm.h\<close> and the kernel headers are not part of the sources at hand.
  What the code takes from them is a parameter of the model: the register numbers, the
  default selection mask \<open>LBR_SELECT\<close>, the four ioctl command codes, and the global
  \<open>lbr_capacity\<close> that \<open>identify_cpu\<close> sets once at start-up.
\<close>

record config =
  lbr_capacity :: nat
  LBR_SELECT :: u64
  MSR_LBR_SELECT :: nat
  MSR_LBR_TOS :: nat
  MSR_LBR_NHM_FROM :: nat
  MSR_LBR_NHM_TO :: nat
  MSR_IA32_DEBUGCTLMSR :: nat
  DEBUGCTLMSR_LBR :: u64
  LIBIHT_LKM_IOC_ENABLE_TRACE :: u32
  LIBIHT_LKM_IOC_DISABLE_TRACE :: u32
  LIBIHT_LKM_IOC_DUMP_LBR :: u32
  LIBIHT_LKM_IOC_SELECT_LBR :: u32

text \<open>
  Not modelled: the debug output of \<open>print_dbg\<close>, the preemption counter behind
  \<open>get_cpu\<close>/\<open>put_cpu\<close>, the spin lock, and the registration of hooks and of the proc
  entry; none of them changes the list or the registers. There is one CPU. Register
  numbers and loop indices are natural numbers: \<open>lbr_capacity\<close> is a small count, and
  no index arithmetic of the module comes near a wrap-around.
\<close>

text \<open>
  The state of the machine: \<open>mem\<close> holds the live objects, \<open>freed\<close> logs every address
  given to \<open>kfree\<close> (in order), \<open>lbr_state_list\<close> is the global anchor pointer and
  \<open>msr\<close> the model-specific registers of the current CPU.
\<close>

record kstate =
  mem :: "addr \<rightharpoonup> lbr_state"
  freed :: "addr list"
  lbr_state_list :: addr
  msr :: "nat \<Rightarrow> u64"

text \<open>
  What C leaves undefined is an error value of the model. \<open>OutOfFuel\<close> is not a
  behaviour of the program: the loops over the list need not terminate on an arbitrary
  store, so they carry a step budget, and \<open>OutOfFuel\<close> says the budget ran out.
\<close>

datatype error = NullDeref | UseAfterFree | WildPointer | DoubleFree | OutOfBounds | OutOfFuel

definition bind_err :: "error + 'a \<Rightarrow> ('a \<Rightarrow> error + 'b) \<Rightarrow> error + 'b" where
  "bind_err m f = (case m of Inl e \<Rightarrow> Inl e | Inr v \<Rightarrow> f v)"

definition dangling :: "kstate \<Rightarrow> addr \<Rightarrow> error" where
  "dangling s p = (if p \<in> set (freed s) then UseAfterFree else WildPointer)"

text \<open>Reading a field through pointer \<open>p\<close>: \<open>load\<close>; writing one: \<open>store\<close>.\<close>

definition load :: "kstate \<Rightarrow> addr \<Rightarrow> error + lbr_state" where
  "load s p =
     (if p = NULL then Inl NullDeref
      else case mem s p of Some v \<Rightarrow> Inr v | None \<Rightarrow> Inl (dangling s p))"

definition store :: "kstate \<Rightarrow> addr \<Rightarrow> (lbr_state \<Rightarrow> lbr_state) \<Rightarrow> error + kstate" where
  "store s p f = bind_err (load s p) (\<lambda>v. Inr (s\<lparr>mem := (mem s)(p \<mapsto> f v)\<rparr>))"

text \<open>\<open>kfree(p)\<close>: nothing for \<open>NULL\<close>; otherwise the object stops being live.\<close>

definition kfree :: "kstate \<Rightarrow> addr \<Rightarrow> error + kstate" where
  "kfree s p =
     (if p = NULL then Inr s
      else case mem s p of
             Some v \<Rightarrow> Inr (s\<lparr>mem := (mem s)(p := None), freed := freed s @ [p]\<rparr>)
           | None \<Rightarrow> Inl (if p \<in> set (freed s) then DoubleFree else WildPointer))"

text \<open>\<open>rdmsrl\<close> and \<open>wrmsrl\<close>.\<close>

definition rdmsrl :: "kstate \<Rightarrow> nat \<Rightarrow> u64" where
  "rdmsrl s r = msr s r"

definition wrmsrl :: "nat \<Rightarrow> u64 \<Rightarrow> kstate \<Rightarrow> kstate" where
  "wrmsrl r v s = s\<lparr>msr := (msr s)(r := v)\<rparr>"

section \<open>LBR state helper functions\<close>

text \<open>
  \<open>create_lbr_state\<close>: \<open>kmalloc\<close> followed by \<open>memset(state, 0, state_size)\<close>. The
  address \<open>a\<close> is what \<open>kmalloc\<close> returns (\<open>NULL\<close> when it fails); the allocator hands
  out storage that is not live.
\<close>

definition zero_state :: "config \<Rightarrow> lbr_state" where
  "zero_state c = \<lparr>lbr_select = 0, lbr_tos = 0, entries = replicate (lbr_capacity c) (0, 0),
     pid = 0, prev = NULL, next = NULL, parent = NULL\<rparr>"

definition create_lbr_state :: "config \<Rightarrow> addr \<Rightarrow> kstate \<Rightarrow> addr \<times> kstate" where
  "create_lbr_state c a s =
     (if a = NULL then (NULL, s)
      else (a, s\<lparr>mem := (mem s)(a \<mapsto> zero_state c), freed := removeAll a (freed s)\<rparr>))"

text \<open>\<open>insert_lbr_state\<close>, statement by statement; \<open>head->prev\<close> is read again after
  the first assignment, as the C does.\<close>

definition insert_lbr_state :: "kstate \<Rightarrow> addr \<Rightarrow> error + kstate" where
  "insert_lbr_state s new_state =
     (if new_state = NULL then Inr s
      else let head = lbr_state_list s in
        if head = NULL then
          bind_err (store s new_state (\<lambda>t. t\<lparr>prev := new_state\<rparr>)) (\<lambda>s1.
          bind_err (store s1 new_state (\<lambda>t. t\<lparr>next := new_state\<rparr>)) (\<lambda>s2.
          Inr (s2\<lparr>lbr_state_list := new_state\<rparr>)))
        else
          bind_err (load s head) (\<lambda>h.
          bind_err (store s (prev h) (\<lambda>t. t\<lparr>next := new_state\<rparr>)) (\<lambda>s1.
          bind_err (load s1 head) (\<lambda>h1.
          bind_err (store s1 new_state (\<lambda>t. t\<lparr>prev := prev h1\<rparr>)) (\<lambda>s2.
          bind_err (store s2 head (\<lambda>t. t\<lparr>prev := new_state\<rparr>)) (\<lambda>s3.
          store s3 new_state (\<lambda>t. t\<lparr>next := head\<rparr>)))))))"

text \<open>
  \<open>remove_lbr_state\<close> calls itself from inside its do-while loop; \<open>remove_scan\<close> is one
  iteration of that loop at \<open>tmp\<close>. The loop reads the global \<open>lbr_state_list\<close> afresh in
  its condition.
\<close>

fun remove_lbr_state :: "nat \<Rightarrow> kstate \<Rightarrow> addr \<Rightarrow> error + kstate"
  and remove_scan :: "nat \<Rightarrow> kstate \<Rightarrow> addr \<Rightarrow> addr \<Rightarrow> error + kstate" where
  "remove_lbr_state 0 s old_state = Inl OutOfFuel"
| "remove_lbr_state (Suc n) s old_state =
     (if old_state = NULL then Inr s
      else let head = lbr_state_list s in
        if head = NULL then Inr s
        else
          bind_err (if head = old_state
                    then bind_err (load s head) (\<lambda>h.
                           Inr (s\<lparr>lbr_state_list := (if next h = head then NULL else next h)\<rparr>))
                    else Inr s) (\<lambda>s1.
          bind_err (load s1 old_state) (\<lambda>o1.
          bind_err (store s1 (prev o1) (\<lambda>t. t\<lparr>next := next o1\<rparr>)) (\<lambda>s2.
          bind_err (load s2 old_state) (\<lambda>o2.
          bind_err (store s2 (next o2) (\<lambda>t. t\<lparr>prev := prev o2\<rparr>)) (\<lambda>s3.
          bind_err (if lbr_state_list s3 \<noteq> NULL
                    then remove_scan n s3 old_state (lbr_state_list s3)
                    else Inr s3) (\<lambda>s4.
          kfree s4 old_state)))))))"
| "remove_scan 0 s old_state tmp = Inl OutOfFuel"
| "remove_scan (Suc n) s old_state tmp =
     bind_err (load s tmp) (\<lambda>t.
     bind_err (if parent t = old_state then remove_lbr_state n s tmp else Inr s) (\<lambda>s1.
     bind_err (load s1 tmp) (\<lambda>t1.
       if prev t1 \<noteq> lbr_state_list s1 then remove_scan n s1 old_state (prev t1)
       else Inr s1)))"

text \<open>\<open>find_lbr_state\<close>: the backward do-while traversal from the anchor; the result is
  the pointer found, or \<open>NULL\<close>.\<close>

fun find_loop :: "nat \<Rightarrow> kstate \<Rightarrow> u32 \<Rightarrow> addr \<Rightarrow> error + addr" where
  "find_loop 0 s p tmp = Inl OutOfFuel"
| "find_loop (Suc n) s p tmp =
     bind_err (load s tmp) (\<lambda>t.
       if pid t = p then Inr tmp
       else if prev t \<noteq> lbr_state_list s then find_loop n s p (prev t)
       else Inr NULL)"

definition find_lbr_state :: "nat \<Rightarrow> kstate \<Rightarrow> u32 \<Rightarrow> error + addr" where
  "find_lbr_state n s p =
     (if lbr_state_list s \<noteq> NULL then find_loop n s p (lbr_state_list s) else Inr NULL)"

section \<open>LBR register helper functions\<close>

text \<open>Writing \<open>state->entries[i].from\<close> and \<open>.to\<close>; reading \<open>state->entries[i]\<close>.\<close>

definition store_entry ::
  "kstate \<Rightarrow> addr \<Rightarrow> nat \<Rightarrow> (lbr_stack_entry \<Rightarrow> lbr_stack_entry) \<Rightarrow> error + kstate" where
  "store_entry s p i f =
     bind_err (load s p) (\<lambda>v.
       if i < length (entries v)
       then Inr (s\<lparr>mem := (mem s)(p \<mapsto> v\<lparr>entries := (entries v)[i := f (entries v ! i)]\<rparr>)\<rparr>)
       else Inl OutOfBounds)"

definition load_entry :: "kstate \<Rightarrow> addr \<Rightarrow> nat \<Rightarrow> error + lbr_stack_entry" where
  "load_entry s p i =
     bind_err (load s p) (\<lambda>v.
       if i < length (entries v) then Inr (entries v ! i) else Inl OutOfBounds)"

text \<open>The loops \<open>for (i = 0; i < lbr_capacity; i++)\<close> run over the index list
  \<open>[0..<lbr_capacity]\<close>.\<close>

fun flush_loop :: "config \<Rightarrow> nat list \<Rightarrow> kstate \<Rightarrow> kstate" where
  "flush_loop c [] s = s"
| "flush_loop c (i # is) s =
     flush_loop c is (wrmsrl (MSR_LBR_NHM_TO c + i) 0 (wrmsrl (MSR_LBR_NHM_FROM c + i) 0 s))"

definition flush_lbr :: "config \<Rightarrow> bool \<Rightarrow> kstate \<Rightarrow> kstate" where
  "flush_lbr c enable s =
     (let s1 = wrmsrl (MSR_LBR_SELECT c) 0 s;
          s2 = wrmsrl (MSR_LBR_TOS c) 0 s1;
          s3 = flush_loop c [0..<lbr_capacity c] s2
      in if enable then wrmsrl (MSR_IA32_DEBUGCTLMSR c) (DEBUGCTLMSR_LBR c) s3
         else wrmsrl (MSR_IA32_DEBUGCTLMSR c) 0 s3)"

fun get_lbr_loop :: "config \<Rightarrow> addr \<Rightarrow> nat list \<Rightarrow> kstate \<Rightarrow> error + kstate" where
  "get_lbr_loop c state [] s = Inr s"
| "get_lbr_loop c state (i # is) s =
     bind_err (store_entry s state i (\<lambda>e. (rdmsrl s (MSR_LBR_NHM_FROM c + i), snd e))) (\<lambda>s1.
     bind_err (store_entry s1 state i (\<lambda>e. (fst e, rdmsrl s1 (MSR_LBR_NHM_TO c + i)))) (\<lambda>s2.
     get_lbr_loop c state is s2))"

definition get_lbr :: "nat \<Rightarrow> config \<Rightarrow> kstate \<Rightarrow> u32 \<Rightarrow> error + kstate" where
  "get_lbr n c s p =
     bind_err (find_lbr_state n s p) (\<lambda>state.
       if state = NULL then Inr s
       else
         bind_err (store s state (\<lambda>t. t\<lparr>lbr_select := rdmsrl s (MSR_LBR_SELECT c)\<rparr>)) (\<lambda>s1.
         bind_err (store s1 state (\<lambda>t. t\<lparr>lbr_tos := rdmsrl s1 (MSR_LBR_TOS c)\<rparr>)) (\<lambda>s2.
         get_lbr_loop c state [0..<lbr_capacity c] s2)))"

fun put_lbr_loop :: "config \<Rightarrow> addr \<Rightarrow> nat list \<Rightarrow> kstate \<Rightarrow> error + kstate" where
  "put_lbr_loop c state [] s = Inr s"
| "put_lbr_loop c state (i # is) s =
     bind_err (load_entry s state i) (\<lambda>e1.
     bind_err (load_entry s state i) (\<lambda>e2.
     put_lbr_loop c state is
       (wrmsrl (MSR_LBR_NHM_TO c + i) (snd e2) (wrmsrl (MSR_LBR_NHM_FROM c + i) (fst e1) s))))"

definition put_lbr :: "nat \<Rightarrow> config \<Rightarrow> kstate \<Rightarrow> u32 \<Rightarrow> error + kstate" where
  "put_lbr n c s p =
     bind_err (find_lbr_state n s p) (\<lambda>state.
       if state = NULL then Inr s
       else
         bind_err (load s state) (\<lambda>t.
         bind_err (load s state) (\<lambda>t'.
         put_lbr_loop c state [0..<lbr_capacity c]
           (wrmsrl (MSR_LBR_TOS c) (lbr_tos t') (wrmsrl (MSR_LBR_SELECT c) (lbr_select t) s)))))"

text \<open>\<open>dump_lbr\<close> only prints besides calling \<open>get_lbr\<close>; it returns nothing.\<close>

definition dump_lbr :: "nat \<Rightarrow> config \<Rightarrow> kstate \<Rightarrow> u32 \<Rightarrow> error + kstate" where
  "dump_lbr n c s p =
     bind_err (find_lbr_state n s p) (\<lambda>state.
       if state = NULL then Inr s else get_lbr n c s p)"

definition disable_lbr :: "config \<Rightarrow> kstate \<Rightarrow> kstate" where
  "disable_lbr c s = flush_lbr c False (wrmsrl (MSR_LBR_SELECT c) 0 s)"

section \<open>Context switch hooks\<close>

text \<open>\<open>save_lbr\<close> and \<open>restore_lbr\<close>; \<open>cur\<close> is \<open>current->pid\<close>.\<close>

definition save_lbr :: "nat \<Rightarrow> config \<Rightarrow> u32 \<Rightarrow> kstate \<Rightarrow> error + kstate" where
  "save_lbr n c cur s =
     bind_err (find_lbr_state n s cur) (\<lambda>state.
       if state = NULL then Inr s else get_lbr n c s cur)"

definition restore_lbr :: "nat \<Rightarrow> config \<Rightarrow> u32 \<Rightarrow> kstate \<Rightarrow> error + kstate" where
  "restore_lbr n c cur s =
     bind_err (find_lbr_state n s cur) (\<lambda>state.
       if state = NULL then Inr s else put_lbr n c s cur)"

section \<open>The ioctl dispatcher\<close>

text \<open>
  \<open>device_ioctl\<close>. \<open>ret\<close> is what \<open>copy_from_user\<close> returns (the number of bytes it
  could not copy) and \<open>request\<close> the structure it filled; \<open>a\<close> is what \<open>kmalloc\<close> returns
  should the request allocate; \<open>cur\<close> is \<open>current->pid\<close>. The result is the status
  returned to the caller together with the new state. \<open>EINVAL\<close> is 22.
\<close>

definition EINVAL :: int where
  "EINVAL = 22"

definition device_ioctl ::
  "nat \<Rightarrow> config \<Rightarrow> u32 \<Rightarrow> addr \<Rightarrow> nat \<Rightarrow> ioctl_request \<Rightarrow> u32 \<Rightarrow> u64 \<Rightarrow> kstate
     \<Rightarrow> error + (int \<times> kstate)" where
  "device_ioctl n c cur a ret request ioctl_cmd ioctl_param s =
     (if ret \<noteq> 0 then Inr (- 1, s)
      else if ioctl_cmd = LIBIHT_LKM_IOC_ENABLE_TRACE c then
        (case create_lbr_state c a s of (state, s0) \<Rightarrow>
           if state = NULL then Inr (- EINVAL, s0)
           else
             bind_err (store s0 state (\<lambda>t. t\<lparr>lbr_select :=
                 (if req_lbr_select request \<noteq> 0 then req_lbr_select request
                  else LBR_SELECT c)\<rparr>)) (\<lambda>s1.
             bind_err (store s1 state (\<lambda>t. t\<lparr>pid :=
                 (if req_pid request \<noteq> 0 then req_pid request else cur)\<rparr>)) (\<lambda>s2.
             bind_err (store s2 state (\<lambda>t. t\<lparr>parent := NULL\<rparr>)) (\<lambda>s3.
             bind_err (insert_lbr_state s3 state) (\<lambda>s4.
             bind_err (put_lbr n c s4 (req_pid request)) (\<lambda>s5.
             Inr (0, s5)))))))
      else if ioctl_cmd = LIBIHT_LKM_IOC_DISABLE_TRACE c then
        bind_err (find_lbr_state n s (req_pid request)) (\<lambda>state.
          if state = NULL then Inr (- EINVAL, s)
          else bind_err (remove_lbr_state n s state) (\<lambda>s1. Inr (0, s1)))
      else if ioctl_cmd = LIBIHT_LKM_IOC_DUMP_LBR c then
        bind_err (dump_lbr n c s (req_pid request)) (\<lambda>s1. Inr (0, s1))
      else if ioctl_cmd = LIBIHT_LKM_IOC_SELECT_LBR c then
        bind_err (find_lbr_state n s (req_pid request)) (\<lambda>state.
          if state = NULL then Inr (- EINVAL, s)
          else
            bind_err (store s state (\<lambda>t. t\<lparr>lbr_select := ioctl_param\<rparr>)) (\<lambda>s1.
            bind_err (put_lbr n c s1 (req_pid request)) (\<lambda>s2.
            Inr (0, s2))))
      else Inr (- EINVAL, s))"

section \<open>Module exit\<close>

text \<open>
  The loop of \<open>libiht_lkm_exit\<close> that frees the list: \<open>kfree(tmp)\<close> comes first, then
  \<open>tmp = tmp->prev\<close>. \<open>disable_lbr\<close> follows on the current CPU.
\<close>

fun exit_loop :: "nat \<Rightarrow> kstate \<Rightarrow> addr \<Rightarrow> error + kstate" where
  "exit_loop 0 s tmp = Inl OutOfFuel"
| "exit_loop (Suc n) s tmp =
     bind_err (kfree s tmp) (\<lambda>s1.
     bind_err (load s1 tmp) (\<lambda>t.
       if prev t \<noteq> lbr_state_list s1 then exit_loop n s1 (prev t) else Inr s1))"

definition libiht_lkm_exit :: "nat \<Rightarrow> config \<Rightarrow> kstate \<Rightarrow> error + kstate" where
  "libiht_lkm_exit n c s =
     bind_err (if lbr_state_list s \<noteq> NULL then exit_loop n s (lbr_state_list s) else Inr s)
       (\<lambda>s1. Inr (disable_lbr c s1))"

section \<open>Specification vocabulary\<close>

text \<open>The registers that \<open>get_lbr\<close> reads and \<open>put_lbr\<close> writes.\<close>

definition lbr_registers :: "config \<Rightarrow> nat set" where
  "lbr_registers c = {MSR_LBR_SELECT c, MSR_LBR_TOS c} \<union>
     (\<lambda>i. MSR_LBR_NHM_FROM c + i) ` {..<lbr_capacity c} \<union>
     (\<lambda>i. MSR_LBR_NHM_TO c + i) ` {..<lbr_capacity c}"

text \<open>
  The store is a ring over the address list \<open>xs\<close> (in forward order, the anchor first)
  when the addresses are distinct and not \<open>NULL\<close>, the anchor pointer is the head of
  \<open>xs\<close> (\<open>NULL\<close> for the empty list), and each member's \<open>next\<close> is its successor in
  \<open>xs\<close>, whose \<open>prev\<close> points back, the last member being followed by the first.
\<close>

definition dlinked :: "kstate \<Rightarrow> addr \<Rightarrow> addr \<Rightarrow> bool" where
  "dlinked s a b \<longleftrightarrow> map_option next (mem s a) = Some b \<and> map_option prev (mem s b) = Some a"

definition ring :: "kstate \<Rightarrow> addr list \<Rightarrow> bool" where
  "ring s xs \<longleftrightarrow> distinct xs \<and> NULL \<notin> set xs \<and>
     (case xs of [] \<Rightarrow> lbr_state_list s = NULL
      | h # t \<Rightarrow> lbr_state_list s = h \<and> successively (dlinked s) (xs @ [h]))"

text \<open>The order in which the backward traversal of \<open>find_lbr_state\<close> visits the ring, and
  the first address of a list whose entry has process id \<open>p\<close> (\<open>NULL\<close> if none has).\<close>

definition backward :: "addr list \<Rightarrow> addr list" where
  "backward xs = (case xs of [] \<Rightarrow> [] | h # t \<Rightarrow> h # rev t)"

definition first_with_pid :: "kstate \<Rightarrow> u32 \<Rightarrow> addr list \<Rightarrow> addr" where
  "first_with_pid s p xs =
     (case List.find (\<lambda>a. map_option pid (mem s a) = Some p) xs of None \<Rightarrow> NULL | Some a \<Rightarrow> a)"

text \<open>
  The traversals of the claims: following \<open>next\<close> (forward) or \<open>prev\<close> (backward) from
  the anchor until the anchor comes up again, in the do-while shape of the loops of the
  module; the result is the list of the members visited.
\<close>

fun walk :: "(lbr_state \<Rightarrow> addr) \<Rightarrow> nat \<Rightarrow> kstate \<Rightarrow> addr \<Rightarrow> error + addr list" where
  "walk link 0 s tmp = Inl OutOfFuel"
| "walk link (Suc n) s tmp =
     bind_err (load s tmp) (\<lambda>t.
       if link t \<noteq> lbr_state_list s
       then bind_err (walk link n s (link t)) (\<lambda>r. Inr (tmp # r))
       else Inr [tmp])"

definition traverse :: "(lbr_state \<Rightarrow> addr) \<Rightarrow> nat \<Rightarrow> kstate \<Rightarrow> error + addr list" where
  "traverse link n s =
     (if lbr_state_list s \<noteq> NULL then walk link n s (lbr_state_list s) else Inr [])"

text \<open>
  Sequences of insertions and removals: \<open>run_ops\<close> runs one on the store,
  \<open>members_after\<close> is the member list it should leave, and \<open>ops_ok L xs\<close> says that
  every inserted address is a live object (in \<open>L\<close>), not \<open>NULL\<close> and not a member, and
  every removed address is a member.
\<close>

datatype store_op = Insert addr | Remove addr

fun run_ops :: "nat \<Rightarrow> store_op list \<Rightarrow> kstate \<Rightarrow> error + kstate" where
  "run_ops n [] s = Inr s"
| "run_ops n (Insert a # ops) s = bind_err (insert_lbr_state s a) (run_ops n ops)"
| "run_ops n (Remove a # ops) s = bind_err (remove_lbr_state n s a) (run_ops n ops)"

fun members_after :: "store_op list \<Rightarrow> addr list \<Rightarrow> addr list" where
  "members_after [] xs = xs"
| "members_after (Insert a # ops) xs = members_after ops (xs @ [a])"
| "members_after (Remove a # ops) xs = members_after ops (remove1 a xs)"

fun ops_ok :: "addr set \<Rightarrow> addr list \<Rightarrow> store_op list \<Rightarrow> bool" where
  "ops_ok L xs [] = True"
| "ops_ok L xs (Insert a # ops) = (a \<noteq> NULL \<and> a \<in> L \<and> a \<notin> set xs \<and> ops_ok L (xs @ [a]) ops)"
| "ops_ok L xs (Remove a # ops) = (a \<in> set xs \<and> ops_ok (L - {a}) (remove1 a xs) ops)"

text \<open>The store invariant: a ring all of whose members have an array of exactly
  \<open>lbr_capacity\<close> register pairs.\<close>

definition store_inv :: "config \<Rightarrow> kstate \<Rightarrow> addr list \<Rightarrow> bool" where
  "store_inv c s xs \<longleftrightarrow> ring s xs \<and>
     (\<forall>a\<in>set xs. map_option (\<lambda>v. length (entries v)) (mem s a) = Some (lbr_capacity c))"

section \<open>Example configuration and stores\<close>

text \<open>A configuration with two register pairs, and small stores: the empty one, one with
  a single entry at address 1 (process 100), and one with a parent at address 1
  (process 100) and its child at address 2 (process 101). \<open>entry p par pr nx\<close> is an
  entry for process \<open>p\<close> with parent \<open>par\<close>, predecessor \<open>pr\<close> and successor \<open>nx\<close>.\<close>

definition example_config :: config where
  "example_config = \<lparr>lbr_capacity = 2, LBR_SELECT = 1, MSR_LBR_SELECT = 456, MSR_LBR_TOS = 457,
     MSR_LBR_NHM_FROM = 1664, MSR_LBR_NHM_TO = 1728, MSR_IA32_DEBUGCTLMSR = 473,
     DEBUGCTLMSR_LBR = 1, LIBIHT_LKM_IOC_ENABLE_TRACE = 1, LIBIHT_LKM_IOC_DISABLE_TRACE = 2,
     LIBIHT_LKM_IOC_DUMP_LBR = 3, LIBIHT_LKM_IOC_SELECT_LBR = 4\<rparr>"

definition empty_store :: kstate where
  "empty_store = \<lparr>mem = Map.empty, freed = [], lbr_state_list = NULL, msr = (\<lambda>r. 0)\<rparr>"

definition entry :: "u32 \<Rightarrow> addr \<Rightarrow> addr \<Rightarrow> addr \<Rightarrow> lbr_state" where
  "entry p par pr nx = \<lparr>lbr_select = 1, lbr_tos = 0, entries = [(0, 0), (0, 0)],
     pid = p, prev = pr, next = nx, parent = par\<rparr>"

definition one_entry :: kstate where
  "one_entry = \<lparr>mem = [1 \<mapsto> entry 100 NULL 1 1], freed = [], lbr_state_list = 1,
     msr = (\<lambda>r. 0)\<rparr>"

definition parent_child :: kstate where
  "parent_child = \<lparr>mem = [1 \<mapsto> entry 100 NULL 2 2, 2 \<mapsto> entry 101 1 1 1],
     freed = [], lbr_state_list = 1, msr = (\<lambda>r. 0)\<rparr>"

text \<open>Two entries, neither the parent of the other.\<close>

definition two_entries :: kstate where
  "two_entries = \<lparr>mem = [1 \<mapsto> entry 100 NULL 2 2, 2 \<mapsto> entry 101 NULL 1 1],
     freed = [], lbr_state_list = 1, msr = (\<lambda>r. 0)\<rparr>"

text \<open>The store with one entry, the registers holding their own numbers.\<close>

definition traced_store :: kstate where
  "traced_store = \<lparr>mem = [1 \<mapsto> entry 100 NULL 1 1], freed = [], lbr_state_list = 1,
     msr = (\<lambda>r. of_nat r)\<rparr>"

section \<open>Basic facts\<close>

lemma bind_err_simps [simp]:
  "bind_err (Inl e) f = Inl e" "bind_err (Inr v) f = f v"
  by (simp_all add: bind_err_def)

lemma load_live: "p \<noteq> NULL \<Longrightarrow> mem s p = Some v \<Longrightarrow> load s p = Inr v"
  by (simp add: load_def)

lemma store_live:
  "p \<noteq> NULL \<Longrightarrow> mem s p = Some v \<Longrightarrow> store s p f = Inr (s\<lparr>mem := (mem s)(p \<mapsto> f v)\<rparr>)"
  by (simp add: store_def load_def)

lemma replicate_two: "replicate 2 x = [x, x]"
  by (simp add: numeral_2_eq_2)

lemma upt_two: "[0..<2] = [0, 1]"
  by (simp add: numeral_2_eq_2)

lemmas ex_defs = example_config_def empty_store_def entry_def one_entry_def parent_child_def

lemmas op_defs = replicate_two upt_two bind_err_def load_def store_def kfree_def dangling_def

section \<open>Lookup does not depend on the saved registers\<close>

lemma load_cong_fields:
  assumes "freed s' = freed s"
    and "map_option f (mem s' a) = map_option f (mem s a)"
  shows "map_sum id f (load s' a) = map_sum id f (load s a)"
  using assms by (cases "mem s a"; cases "mem s' a") (auto simp: load_def dangling_def)

lemma find_loop_cong:
  assumes "lbr_state_list s' = lbr_state_list s" and "freed s' = freed s"
    and "\<And>a. map_option (\<lambda>x. (pid x, prev x)) (mem s' a) = map_option (\<lambda>x. (pid x, prev x)) (mem s a)"
  shows "find_loop n s' p tmp = find_loop n s p tmp"
proof (induction n arbitrary: tmp)
  case 0
  show ?case by simp
next
  case (Suc n)
  have "map_sum id (\<lambda>x. (pid x, prev x)) (load s' tmp) = map_sum id (\<lambda>x. (pid x, prev x)) (load s tmp)"
    by (rule load_cong_fields) (rule assms)+
  then show ?case
    using Suc.IH assms(1)
    by (cases "load s tmp"; cases "load s' tmp") auto
qed

lemma find_lbr_state_cong:
  assumes "lbr_state_list s' = lbr_state_list s" and "freed s' = freed s"
    and "\<And>a. map_option (\<lambda>x. (pid x, prev x)) (mem s' a) = map_option (\<lambda>x. (pid x, prev x)) (mem s a)"
  shows "find_lbr_state n s' p = find_lbr_state n s p"
  using find_loop_cong [OF assms] assms(1) by (simp add: find_lbr_state_def)

section \<open>The register loops\<close>

lemma get_lbr_loop_result:
  assumes "state \<noteq> NULL" and "mem s state = Some t" and "\<forall>i\<in>set is. i < length (entries t)"
  shows "get_lbr_loop c state is s =
     Inr (s\<lparr>mem := (mem s)(state \<mapsto> t\<lparr>entries :=
        fold (\<lambda>i es. es[i := (msr s (MSR_LBR_NHM_FROM c + i), msr s (MSR_LBR_NHM_TO c + i))])
          is (entries t)\<rparr>)\<rparr>)"
  using assms
proof (induction "is" arbitrary: s t)
  case Nil
  then show ?case by (simp add: map_upd_triv)
next
  case (Cons i "is")
  let ?f = "\<lambda>m i es. es[i := (m (MSR_LBR_NHM_FROM c + i), m (MSR_LBR_NHM_TO c + i))]"
  let ?t2 = "t\<lparr>entries := ?f (msr s) i (entries t)\<rparr>"
  let ?s2 = "s\<lparr>mem := (mem s)(state \<mapsto> ?t2)\<rparr>"
  have i: "i < length (entries t)" using Cons.prems by simp
  have a: "get_lbr_loop c state (i # is) s = get_lbr_loop c state is ?s2"
    using Cons.prems(1,2) i by (simp add: store_entry_def load_live rdmsrl_def)
  have b: "get_lbr_loop c state is ?s2 = Inr (?s2\<lparr>mem := (mem ?s2)(state \<mapsto> ?t2\<lparr>entries :=
        fold (?f (msr ?s2)) is (entries ?t2)\<rparr>)\<rparr>)"
    using Cons.prems by (intro Cons.IH) auto
  have c: "?s2\<lparr>mem := (mem ?s2)(state \<mapsto> ?t2\<lparr>entries := fold (?f (msr ?s2)) is (entries ?t2)\<rparr>)\<rparr>
      = s\<lparr>mem := (mem s)(state \<mapsto> t\<lparr>entries := fold (?f (msr s)) (i # is) (entries t)\<rparr>)\<rparr>"
    by simp
  show ?case unfolding a b c ..
qed

lemma put_lbr_loop_result:
  assumes "state \<noteq> NULL" and "mem s state = Some t" and "\<forall>i\<in>set is. i < length (entries t)"
  shows "put_lbr_loop c state is s =
     Inr (s\<lparr>msr := fold (\<lambda>i m. m(MSR_LBR_NHM_FROM c + i := fst (entries t ! i),
                                  MSR_LBR_NHM_TO c + i := snd (entries t ! i))) is (msr s)\<rparr>)"
  using assms
proof (induction "is" arbitrary: s)
  case Nil
  then show ?case by simp
next
  case (Cons i "is")
  let ?f = "\<lambda>i m. m(MSR_LBR_NHM_FROM c + i := fst (entries t ! i),
                                  MSR_LBR_NHM_TO c + i := snd (entries t ! i))"
  let ?s2 = "s\<lparr>msr := ?f i (msr s)\<rparr>"
  have a: "put_lbr_loop c state (i # is) s = put_lbr_loop c state is ?s2"
    using Cons.prems by (simp add: load_entry_def load_live wrmsrl_def)
  have b: "put_lbr_loop c state is ?s2 = Inr (?s2\<lparr>msr := fold ?f is (msr ?s2)\<rparr>)"
    using Cons.prems by (intro Cons.IH) auto
  have c: "?s2\<lparr>msr := fold ?f is (msr ?s2)\<rparr> = s\<lparr>msr := fold ?f (i # is) (msr s)\<rparr>"
    by simp
  show ?case unfolding a b c ..
qed

lemma snapshot_length:
  "length (fold (\<lambda>i es. es[i := f i]) is es) = length es"
  by (induction "is" arbitrary: es) auto

lemma snapshot_nth:
  "j < length es \<Longrightarrow> fold (\<lambda>i es. es[i := f i]) is es ! j = (if j \<in> set is then f j else es ! j)"
  by (induction "is" arbitrary: es) (auto simp: nth_list_update)

lemma write_back_apply:
  assumes "\<forall>i\<in>set is. es ! i = (hw (F + i), hw (T + i))"
  shows "fold (\<lambda>i m. m(F + i := fst (es ! i), T + i := snd (es ! i))) is m r =
     (if r \<in> (\<lambda>i. F + i) ` set is \<union> (\<lambda>i. T + i) ` set is then hw r else m r)"
  using assms
proof (induction "is" arbitrary: m)
  case Nil
  then show ?case by simp
next
  case (Cons i "is")
  then show ?case by (auto simp: image_iff)
qed

section \<open>The ring invariant\<close>

lemma successively_frame:
  assumes "successively P xs"
    and "\<And>a b. a \<in> set (butlast xs) \<Longrightarrow> b \<in> set (tl xs) \<Longrightarrow> P a b \<Longrightarrow> Q a b"
  shows "successively Q xs"
  using assms
proof (induction P xs rule: successively.induct)
  case (3 P x y xs)
  have "successively Q (y # xs)"
  proof (rule "3.IH")
    show "successively P (y # xs)" using "3.prems"(1) by simp
  next
    fix a b assume "a \<in> set (butlast (y # xs))" "b \<in> set (tl (y # xs))" "P a b"
    then show "Q a b" using "3.prems"(2) [of a b] by (auto split: if_splits)
  qed
  moreover have "Q x y" using "3.prems" by auto
  ultimately show ?case by simp
qed simp_all

lemma successively_frame_distinct:
  assumes "successively P xs" and "distinct xs"
    and "\<And>a b. a \<in> set xs \<Longrightarrow> b \<in> set xs \<Longrightarrow> a \<noteq> last xs \<Longrightarrow> b \<noteq> hd xs \<Longrightarrow> P a b \<Longrightarrow> Q a b"
  shows "successively Q xs"
proof (rule successively_frame [OF assms(1)])
  fix a b assume a: "a \<in> set (butlast xs)" and b: "b \<in> set (tl xs)" and p: "P a b"
  have "xs \<noteq> []" using a by auto
  have "a \<noteq> last xs"
    using a assms(2) \<open>xs \<noteq> []\<close> by (metis append_butlast_last_id distinct_append disjoint_iff list.set_intros(1))
  moreover have "b \<noteq> hd xs"
    using b assms(2) \<open>xs \<noteq> []\<close> by (cases xs) auto
  ultimately show "Q a b"
    using a b p assms(3) by (meson in_set_butlastD list.set_sel(2) \<open>xs \<noteq> []\<close>)
qed

lemma successively_live:
  assumes "successively (dlinked s) ys" and "2 \<le> length ys" and "a \<in> set ys"
  shows "\<exists>v. mem s a = Some v"
  using assms
proof (induction "dlinked s" ys rule: successively.induct)
  case (3 x y xs)
  show ?case
  proof (cases "a = x \<or> a = y")
    case True
    then show ?thesis using "3.prems"(1) by (auto simp: dlinked_def)
  next
    case False
    then have "a \<in> set (y # xs)" "xs \<noteq> []" using "3.prems"(3) by auto
    then show ?thesis using "3.hyps" "3.prems"(1) by (cases xs) auto
  qed
qed simp_all

lemma ring_live:
  assumes "ring s xs" and "a \<in> set xs"
  shows "\<exists>v. mem s a = Some v"
proof -
  obtain h t where xs: "xs = h # t" using assms(2) by (cases xs) auto
  have "successively (dlinked s) (xs @ [h])" using assms(1) xs by (simp add: ring_def)
  moreover have "2 \<le> length (xs @ [h])" using xs by simp
  ultimately show ?thesis using assms(2) successively_live [of s "xs @ [h]" a] by simp
qed

lemma ring_backward:
  assumes "ring s (h # t)"
  shows "successively (\<lambda>a b. map_option prev (mem s a) = Some b) (h # rev t @ [h])"
proof -
  have "successively (dlinked s) ((h # t) @ [h])" using assms by (simp add: ring_def)
  then have "successively (\<lambda>a b. dlinked s b a) (rev ((h # t) @ [h]))"
    by (simp only: successively_rev)
  then have "successively (\<lambda>a b. dlinked s b a) (h # rev t @ [h])" by simp
  then show ?thesis
    by (rule successively_mono) (simp add: dlinked_def)
qed

lemma find_loop_path:
  assumes "successively (\<lambda>a b. map_option prev (mem s a) = Some b) (tmp # ys @ [h])"
    and "lbr_state_list s = h" and "h \<notin> set ys" and "NULL \<notin> set (tmp # ys)"
    and "length ys < n"
  shows "find_loop n s p tmp = Inr (first_with_pid s p (tmp # ys))"
  using assms
proof (induction ys arbitrary: tmp n)
  case Nil
  then obtain m where n: "n = Suc m" by (cases n) auto
  from Nil obtain v where v: "mem s tmp = Some v" "prev v = h" by auto
  show ?case using Nil.prems v n by (simp add: load_live first_with_pid_def)
next
  case (Cons y ys)
  then obtain m where n: "n = Suc m" by (cases n) auto
  from Cons.prems obtain v where v: "mem s tmp = Some v" "prev v = y" by auto
  have ih: "find_loop m s p y = Inr (first_with_pid s p (y # ys))"
    using Cons.prems n by (intro Cons.IH) auto
  show ?case using Cons.prems v n ih by (auto simp: load_live first_with_pid_def)
qed

lemma find_lbr_state_ring:
  assumes "ring s xs" and "length xs \<le> n"
  shows "find_lbr_state n s p = Inr (first_with_pid s p (backward xs))"
proof (cases xs)
  case Nil
  then show ?thesis using assms by (simp add: ring_def find_lbr_state_def backward_def first_with_pid_def)
next
  case (Cons h t)
  have "find_loop n s p h = Inr (first_with_pid s p (h # rev t))"
  proof (rule find_loop_path)
    show "successively (\<lambda>a b. map_option prev (mem s a) = Some b) (h # rev t @ [h])"
      by (rule ring_backward [OF assms(1) [unfolded Cons]])
  qed (use assms Cons in \<open>auto simp: ring_def\<close>)
  then show ?thesis using assms Cons by (auto simp: ring_def find_lbr_state_def backward_def)
qed

lemma first_with_pid_cases:
  "first_with_pid s p xs = NULL \<and> (\<forall>a\<in>set xs. map_option pid (mem s a) \<noteq> Some p) \<or>
   first_with_pid s p xs \<in> set xs \<and> map_option pid (mem s (first_with_pid s p xs)) = Some p"
  by (auto simp: first_with_pid_def find_None_iff split: option.splits dest: find_Some_iff [THEN iffD1])

lemma set_backward [simp]: "set (backward xs) = set xs"
  by (cases xs) (auto simp: backward_def)

lemma ring_nonnull:
  assumes "ring s xs" and "a \<in> set xs"
  shows "a \<noteq> NULL"
proof
  assume "a = NULL"
  then show False using assms by (simp add: ring_def)
qed

lemma ring_cong:
  assumes "ring s xs" and "lbr_state_list s' = lbr_state_list s"
    and "\<And>a. a \<in> set xs \<Longrightarrow> map_option (\<lambda>x. (prev x, next x)) (mem s' a) = map_option (\<lambda>x. (prev x, next x)) (mem s a)"
  shows "ring s' xs"
proof (cases xs)
  case Nil
  then show ?thesis using assms by (simp add: ring_def)
next
  case (Cons h t)
  have l: "map_option prev (mem s' a) = map_option prev (mem s a) \<and>
     map_option next (mem s' a) = map_option next (mem s a)" if "a \<in> set xs" for a
    using assms(3) [OF that] by (cases "mem s a"; cases "mem s' a") auto
  have "successively (dlinked s) (xs @ [h])" using assms(1) Cons by (simp add: ring_def)
  then have "successively (dlinked s') (xs @ [h])"
    by (rule successively_frame) (use l Cons in \<open>auto simp: dlinked_def dest!: in_set_butlastD\<close>)
  then show ?thesis using assms(1,2) Cons by (simp add: ring_def)
qed

lemma insert_lbr_state_links:
  assumes "lbr_state_list s = h" and "h \<noteq> NULL" and "mem s h = Some hv" and "prev hv = l"
    and "l \<noteq> NULL" and "mem s l = Some lv"
    and "new_state \<noteq> NULL" and "mem s new_state = Some v"
    and "new_state \<noteq> h" and "new_state \<noteq> l"
  shows "\<exists>s'. insert_lbr_state s new_state = Inr s' \<and>
     lbr_state_list s' = h \<and> freed s' = freed s \<and> msr s' = msr s \<and>
     (\<forall>a. map_option (\<lambda>x. x\<lparr>prev := NULL, next := NULL\<rparr>) (mem s' a) =
          map_option (\<lambda>x. x\<lparr>prev := NULL, next := NULL\<rparr>) (mem s a)) \<and>
     (\<forall>a. map_option next (mem s' a) =
       (if a = new_state then Some h else if a = l then Some new_state
        else map_option next (mem s a))) \<and>
     (\<forall>a. map_option prev (mem s' a) =
       (if a = h then Some new_state else if a = new_state then Some l
        else map_option prev (mem s a)))"
  using assms by (auto simp: insert_lbr_state_def Let_def store_def load_def)

lemma insert_lbr_state_ring:
  assumes "ring s xs" and "new_state \<notin> set xs" and "new_state \<noteq> NULL"
    and "mem s new_state = Some v"
  shows "\<exists>s'. insert_lbr_state s new_state = Inr s' \<and> ring s' (xs @ [new_state]) \<and>
     freed s' = freed s \<and> msr s' = msr s \<and>
     (\<forall>a. map_option (\<lambda>x. x\<lparr>prev := NULL, next := NULL\<rparr>) (mem s' a) =
          map_option (\<lambda>x. x\<lparr>prev := NULL, next := NULL\<rparr>) (mem s a))"
proof (cases xs)
  case Nil
  then have "lbr_state_list s = NULL" using assms(1) by (simp add: ring_def)
  then show ?thesis
    using assms Nil
    by (auto simp: insert_lbr_state_def store_live ring_def dlinked_def)
next
  case (Cons h t)
  define l where "l = last xs"
  have hd: "lbr_state_list s = h" "h \<noteq> NULL" using assms(1) Cons by (auto simp: ring_def)
  have succ: "successively (dlinked s) (xs @ [h])" using assms(1) Cons by (simp add: ring_def)
  have dist: "distinct xs" using assms(1) by (simp add: ring_def)
  have lin: "l \<in> set xs" using Cons by (simp add: l_def)
  have ne: "xs \<noteq> []" using Cons by simp
  have "dlinked s l h"
    using succ ne by (simp add: successively_append_iff l_def)
  then obtain hv lv where hv: "mem s h = Some hv" "prev hv = l" and lv: "mem s l = Some lv" "next lv = h"
    by (auto simp: dlinked_def)
  have lnz: "l \<noteq> NULL" using lin assms(1) by (rule ring_nonnull [rotated])
  have ln: "l \<noteq> new_state" "h \<noteq> new_state" using lin assms(2) Cons by auto
  obtain s' where s': "insert_lbr_state s new_state = Inr s'"
    and frame: "lbr_state_list s' = h" "freed s' = freed s" "msr s' = msr s"
     "\<forall>a. map_option (\<lambda>x. x\<lparr>prev := NULL, next := NULL\<rparr>) (mem s' a) =
          map_option (\<lambda>x. x\<lparr>prev := NULL, next := NULL\<rparr>) (mem s a)"
    and nx: "\<And>a. map_option next (mem s' a) =
       (if a = new_state then Some h else if a = l then Some new_state else map_option next (mem s a))"
    and pv: "\<And>a. map_option prev (mem s' a) =
       (if a = h then Some new_state else if a = new_state then Some l else map_option prev (mem s a))"
    using insert_lbr_state_links [OF hd(1,2) hv lnz lv(1) assms(3,4)] ln by blast
  have "successively (dlinked s) xs" using succ by (simp add: successively_append_iff)
  then have "successively (dlinked s') xs"
  proof (rule successively_frame_distinct [OF _ dist])
    fix a b assume "a \<in> set xs" "b \<in> set xs" "a \<noteq> last xs" "b \<noteq> hd xs" "dlinked s a b"
    then show "dlinked s' a b"
      using assms(2) Cons by (auto simp: dlinked_def nx pv l_def)
  qed
  moreover have "dlinked s' l new_state" "dlinked s' new_state h"
    using ln by (auto simp: dlinked_def nx pv)
  ultimately have "successively (dlinked s') ((xs @ [new_state]) @ [h])"
    using ne by (simp add: successively_append_iff l_def)
  then have "ring s' (xs @ [new_state])"
    using assms(1,2,3) Cons frame(1) by (auto simp: ring_def)
  then show ?thesis using s' frame by blast
qed
lemma nonlink_pid:
  assumes "map_option (\<lambda>x. x\<lparr>prev := NULL, next := NULL\<rparr>) (mem s' a) =
          map_option (\<lambda>x. x\<lparr>prev := NULL, next := NULL\<rparr>) (mem s a)"
  shows "map_option pid (mem s' a) = map_option pid (mem s a)"
  using assms by (cases "mem s a"; cases "mem s' a") (auto dest: arg_cong [where f = pid])

lemma first_with_pid_cong:
  assumes "\<And>a. a \<in> set xs \<Longrightarrow> map_option pid (mem s' a) = map_option pid (mem s a)"
  shows "first_with_pid s' p xs = first_with_pid s p xs"
proof -
  have "List.find (\<lambda>a. map_option pid (mem s' a) = Some p) xs =
        List.find (\<lambda>a. map_option pid (mem s a) = Some p) xs"
    by (rule find_cong) (simp_all add: assms)
  then show ?thesis by (simp add: first_with_pid_def)
qed

lemma ring_one_entry: "ring one_entry [1]"
  by (simp add: ring_def dlinked_def one_entry_def entry_def)

lemma ring_two_entries: "ring two_entries [1, 2]"
  by (simp add: ring_def dlinked_def two_entries_def entry_def)


lemma nonlink_entries:
  assumes "map_option (\<lambda>x. x\<lparr>prev := NULL, next := NULL\<rparr>) (mem s' a) =
          map_option (\<lambda>x. x\<lparr>prev := NULL, next := NULL\<rparr>) (mem s a)"
  shows "map_option (\<lambda>v. length (entries v)) (mem s' a) = map_option (\<lambda>v. length (entries v)) (mem s a)"
  using assms by (cases "mem s a"; cases "mem s' a") (auto dest: arg_cong [where f = entries])

lemma put_lbr_ring:
  assumes "store_inv c s xs" and "length xs \<le> n"
  shows "\<exists>s'. put_lbr n c s p = Inr s' \<and> mem s' = mem s \<and>
     lbr_state_list s' = lbr_state_list s \<and> freed s' = freed s"
proof -
  let ?st = "first_with_pid s p (backward xs)"
  have ring: "ring s xs" using assms(1) by (simp add: store_inv_def)
  have f: "find_lbr_state n s p = Inr ?st"
    by (rule find_lbr_state_ring [OF ring assms(2)])
  show ?thesis
  proof (cases "?st = NULL")
    case True
    then show ?thesis using f by (simp add: put_lbr_def)
  next
    case False
    then have "?st \<in> set xs" using first_with_pid_cases [of s p "backward xs"] by auto
    then obtain v where v: "mem s ?st = Some v" "length (entries v) = lbr_capacity c"
      using assms(1) by (auto simp: store_inv_def)
    let ?s1 = "wrmsrl (MSR_LBR_TOS c) (lbr_tos v) (wrmsrl (MSR_LBR_SELECT c) (lbr_select v) s)"
    have "put_lbr_loop c ?st [0..<lbr_capacity c] ?s1 =
      Inr (?s1\<lparr>msr := fold (\<lambda>i m. m(MSR_LBR_NHM_FROM c + i := fst (entries v ! i),
                                  MSR_LBR_NHM_TO c + i := snd (entries v ! i))) [0..<lbr_capacity c] (msr ?s1)\<rparr>)"
      using False v by (intro put_lbr_loop_result) (auto simp: wrmsrl_def)
    then show ?thesis
      using f False v by (simp add: put_lbr_def load_live wrmsrl_def)
  qed
qed


section \<open>Removal of an entry without children\<close>

text \<open>The scan of \<open>remove_lbr_state\<close> over a ring none of whose members names
  \<open>old_state\<close> as parent changes nothing and comes back to the anchor.\<close>

lemma remove_scan_path:
  assumes "successively (\<lambda>a b. map_option prev (mem s a) = Some b) (tmp # ys @ [h])"
    and "lbr_state_list s = h" and "h \<notin> set ys" and "NULL \<notin> set (tmp # ys)"
    and "\<forall>a\<in>set (tmp # ys). map_option parent (mem s a) \<noteq> Some old_state"
    and "length ys < n"
  shows "remove_scan n s old_state tmp = Inr s"
  using assms
proof (induction ys arbitrary: tmp n)
  case Nil
  then obtain m where n: "n = Suc m" by (cases n) auto
  from Nil obtain v where v: "mem s tmp = Some v" "prev v = h" by auto
  show ?case using Nil.prems v n by (simp add: load_live)
next
  case (Cons y ys)
  then obtain m where n: "n = Suc m" by (cases n) auto
  from Cons.prems obtain v where v: "mem s tmp = Some v" "prev v = y" by auto
  have ih: "remove_scan m s old_state y = Inr s"
    using Cons.prems n by (intro Cons.IH) auto
  show ?case using Cons.prems v n ih by (auto simp: load_live)
qed

lemma remove_scan_ring:
  assumes "ring s xs" and "xs \<noteq> []"
    and "\<forall>a\<in>set xs. map_option parent (mem s a) \<noteq> Some old_state"
    and "length xs \<le> n"
  shows "remove_scan n s old_state (lbr_state_list s) = Inr s"
proof -
  obtain h t where xs: "xs = h # t" using assms(2) by (cases xs) auto
  have "remove_scan n s old_state h = Inr s"
  proof (rule remove_scan_path)
    show "successively (\<lambda>a b. map_option prev (mem s a) = Some b) (h # rev t @ [h])"
      by (rule ring_backward [OF assms(1) [unfolded xs]])
  qed (use assms xs in \<open>auto simp: ring_def\<close>)
  then show ?thesis using assms(1) xs by (simp add: ring_def)
qed

lemma remove_lbr_state_unlink:
  assumes "old_state \<noteq> NULL" and "lbr_state_list s = h" and "h \<noteq> NULL"
    and "mem s old_state = Some ov" and "P = prev ov" and "N = next ov"
    and "P \<noteq> NULL" and "N \<noteq> NULL" and "mem s P = Some pv" and "mem s N = Some nv"
  shows "\<exists>s3. remove_lbr_state (Suc n) s old_state =
       bind_err (if lbr_state_list s3 \<noteq> NULL then remove_scan n s3 old_state (lbr_state_list s3)
                 else Inr s3) (\<lambda>s4. kfree s4 old_state) \<and>
     lbr_state_list s3 = (if h = old_state then (if N = old_state then NULL else N) else h) \<and>
     freed s3 = freed s \<and> msr s3 = msr s \<and>
     (\<forall>a. map_option (\<lambda>x. x\<lparr>prev := NULL, next := NULL\<rparr>) (mem s3 a) =
          map_option (\<lambda>x. x\<lparr>prev := NULL, next := NULL\<rparr>) (mem s a)) \<and>
     (\<forall>a. map_option next (mem s3 a) = (if a = P then Some N else map_option next (mem s a))) \<and>
     (\<forall>a. map_option prev (mem s3 a) = (if a = N then Some P else map_option prev (mem s a)))"
proof -
  let ?L = "if h = old_state then (if N = old_state then NULL else N) else h"
  let ?nv = "if N = P then pv\<lparr>next := N\<rparr> else nv"
  let ?s3 = "s\<lparr>lbr_state_list := ?L, mem := (mem s)(P \<mapsto> pv\<lparr>next := N\<rparr>, N \<mapsto> ?nv\<lparr>prev := P\<rparr>)\<rparr>"
  have "remove_lbr_state (Suc n) s old_state =
       bind_err (if lbr_state_list ?s3 \<noteq> NULL then remove_scan n ?s3 old_state (lbr_state_list ?s3)
                 else Inr ?s3) (\<lambda>s4. kfree s4 old_state)"
    using assms by (auto simp: Let_def load_def store_def)
  moreover have "\<forall>a. map_option (\<lambda>x. x\<lparr>prev := NULL, next := NULL\<rparr>) (mem ?s3 a) =
          map_option (\<lambda>x. x\<lparr>prev := NULL, next := NULL\<rparr>) (mem s a)"
    using assms by auto
  moreover have "\<forall>a. map_option next (mem ?s3 a) = (if a = P then Some N else map_option next (mem s a))"
    using assms by auto
  moreover have "\<forall>a. map_option prev (mem ?s3 a) = (if a = N then Some P else map_option prev (mem s a))"
    using assms by auto
  ultimately show ?thesis
    by (intro exI [of _ ?s3]) simp
qed


lemma unlink_ring:
  assumes ring: "ring s xs" and xs: "xs = pre @ e # post"
    and ev: "mem s e = Some ev"
    and hd3: "lbr_state_list s3 =
       (if lbr_state_list s = e then (if next ev = e then NULL else next ev) else lbr_state_list s)"
    and nx: "\<And>a. map_option next (mem s3 a) =
       (if a = prev ev then Some (next ev) else map_option next (mem s a))"
    and pv: "\<And>a. map_option prev (mem s3 a) =
       (if a = next ev then Some (prev ev) else map_option prev (mem s a))"
  shows "ring s3 (pre @ post)"
proof -
  have dist: "distinct (pre @ e # post)" and nn: "NULL \<notin> set (pre @ e # post)"
    using ring xs by (auto simp: ring_def)
  show ?thesis
  proof (cases pre)
    case Nil
    then have h: "lbr_state_list s = e" and succ: "successively (dlinked s) (e # post @ [e])"
      using ring xs by (auto simp: ring_def)
    show ?thesis
    proof (cases post)
      case Nil
      then have "next ev = e" using succ ev by (simp add: dlinked_def)
      then show ?thesis using Nil \<open>pre = []\<close> hd3 h by (simp add: ring_def)
    next
      case (Cons q post')
      have ne: "post \<noteq> []" using Cons by simp
      have "dlinked s e q" using succ Cons by simp
      then have N: "next ev = q" using ev by (simp add: dlinked_def)
      have sp: "successively (dlinked s) post" and "dlinked s (last post) e"
        using succ ne by (simp_all add: successively_Cons successively_append_iff)
      then have P: "prev ev = last post" using ev by (simp add: dlinked_def)
      have qe: "q \<noteq> e" using dist Cons by auto
      have dp: "distinct post" using dist by simp
      have "successively (dlinked s3) post"
      proof (rule successively_frame_distinct [OF sp dp])
        fix a b assume "a \<in> set post" "b \<in> set post" "a \<noteq> last post" "b \<noteq> hd post" "dlinked s a b"
        then show "dlinked s3 a b"
          using N P Cons by (auto simp: dlinked_def nx pv)
      qed
      moreover have "dlinked s3 (last post) q"
        using N P by (simp add: dlinked_def nx pv)
      ultimately have "successively (dlinked s3) (post @ [q])"
        using ne by (simp add: successively_append_iff)
      then show ?thesis
        using Cons \<open>pre = []\<close> hd3 h N qe dist nn by (simp add: ring_def)
    qed
  next
    case (Cons h pre')
    have ne: "pre \<noteq> []" using Cons by simp
    have h: "lbr_state_list s = h" and succ: "successively (dlinked s) (pre @ e # post @ [h])"
      using ring xs Cons by (auto simp: ring_def)
    have he: "h \<noteq> e" using dist Cons by auto
    have hpre: "h \<in> set pre" "hd pre = h" using Cons by auto
    have sp: "successively (dlinked s) pre" and sq: "successively (dlinked s) (post @ [h])"
      and l1: "dlinked s (last pre) e" and l2: "dlinked s e (hd (post @ [h]))"
      using succ ne by (simp_all add: successively_Cons successively_append_iff)
    have P: "prev ev = last pre" and N: "next ev = hd (post @ [h])"
      using l1 l2 ev by (simp_all add: dlinked_def)
    have dpre: "distinct pre" and dq: "distinct (post @ [h])"
      using dist hpre by auto
    have Npre: "next ev \<in> set pre \<Longrightarrow> next ev = h"
      using N dist by (cases post) auto
    have Ppost: "prev ev \<notin> set post"
      using P dist last_in_set [OF ne] by auto
    have "successively (dlinked s3) pre"
    proof (rule successively_frame_distinct [OF sp dpre])
      fix a b assume "a \<in> set pre" "b \<in> set pre" "a \<noteq> last pre" "b \<noteq> hd pre" "dlinked s a b"
      then show "dlinked s3 a b"
        using P Npre hpre by (auto simp: dlinked_def nx pv)
    qed
    moreover have "successively (dlinked s3) (post @ [h])"
    proof (rule successively_frame_distinct [OF sq dq])
      fix a b assume "a \<in> set (post @ [h])" "b \<in> set (post @ [h])" "a \<noteq> last (post @ [h])"
        "b \<noteq> hd (post @ [h])" "dlinked s a b"
      then show "dlinked s3 a b"
        using N Ppost by (auto simp: dlinked_def nx pv)
    qed
    moreover have "dlinked s3 (last pre) (hd (post @ [h]))"
      using N P by (simp add: dlinked_def nx pv)
    ultimately have "successively (dlinked s3) (pre @ post @ [h])"
      using ne by (simp add: successively_append_iff)
    then show ?thesis
      using Cons hd3 h he dist nn by (simp add: ring_def)
  qed
qed


lemma kfree_result:
  assumes "kfree s x = Inr s'" and "x \<noteq> NULL"
  shows "mem s' x = None \<and> x \<in> set (freed s')"
  using assms by (auto simp: kfree_def split: option.splits)

lemma bind_err_Inr:
  "bind_err m f = Inr r \<Longrightarrow> \<exists>v. m = Inr v \<and> f v = Inr r"
  by (cases m) auto

lemma nonlink_parent:
  assumes "map_option (\<lambda>x. x\<lparr>prev := NULL, next := NULL\<rparr>) (mem s' a) =
          map_option (\<lambda>x. x\<lparr>prev := NULL, next := NULL\<rparr>) (mem s a)"
  shows "map_option parent (mem s' a) = map_option parent (mem s a)"
  using assms by (cases "mem s a"; cases "mem s' a") (auto dest: arg_cong [where f = parent])

lemma remove_lbr_state_unlink_ring:
  assumes ring: "ring s xs" and mem: "e \<in> set xs"
  shows "\<exists>s3. remove_lbr_state (Suc m) s e =
       bind_err (if lbr_state_list s3 \<noteq> NULL then remove_scan m s3 e (lbr_state_list s3)
                 else Inr s3) (\<lambda>s4. kfree s4 e) \<and>
     ring s3 (remove1 e xs) \<and> freed s3 = freed s \<and> msr s3 = msr s \<and>
     (\<forall>a. map_option (\<lambda>x. x\<lparr>prev := NULL, next := NULL\<rparr>) (mem s3 a) =
          map_option (\<lambda>x. x\<lparr>prev := NULL, next := NULL\<rparr>) (mem s a))"
proof -
  obtain pre post where xs: "xs = pre @ e # post" and epre: "e \<notin> set pre"
    using mem by (meson split_list_first)
  obtain h t where ht: "xs = h # t" using mem by (cases xs) auto
  have hd: "lbr_state_list s = h" "h \<noteq> NULL"
    using ring ht ring_nonnull [OF ring, of h] by (auto simp: ring_def)
  have enz: "e \<noteq> NULL" using ring mem by (rule ring_nonnull)
  obtain ev where ev: "mem s e = Some ev" using ring_live [OF ring mem] by blast
  have "successively (dlinked s) (xs @ [h])"
    using ring ht by (simp add: ring_def)
  then have succ: "successively (dlinked s) (pre @ e # post @ [h])"
    unfolding xs by simp
  have "dlinked s e (hd (post @ [h]))"
    using succ by (simp add: successively_append_iff successively_Cons)
  then have N: "next ev = hd (post @ [h])" using ev by (simp add: dlinked_def)
  have "dlinked s (last (e # post @ pre)) e"
  proof (cases pre)
    case Nil
    then have "h = e" using xs ht by simp
    then have "successively (dlinked s) ((e # post) @ [e])" using succ Nil by simp
    then show ?thesis unfolding successively_append_iff using Nil by simp
  next
    case (Cons q pre')
    then have "pre \<noteq> []" by simp
    then show ?thesis
      using succ by (simp add: successively_append_iff)
  qed
  then have P: "prev ev = last (e # post @ pre)" using ev by (simp add: dlinked_def)
  have hin: "h \<in> set xs" using ht by simp
  have Nin: "next ev \<in> set xs"
  proof (cases post)
    case Nil
    then show ?thesis using N hin by simp
  next
    case (Cons q post')
    then show ?thesis using N xs by simp
  qed
  have Pin: "prev ev \<in> set xs"
  proof (cases pre)
    case Nil
    then have "last (e # post) \<in> set (e # post)" by (intro last_in_set) simp
    then show ?thesis using P xs Nil by simp
  next
    case (Cons q pre')
    then have "last pre \<in> set pre" by simp
    then show ?thesis using P xs Cons by simp
  qed
  obtain pv nv where pv: "mem s (prev ev) = Some pv" and nv: "mem s (next ev) = Some nv"
    using ring_live [OF ring Nin] ring_live [OF ring Pin] by blast
  have Pnz: "prev ev \<noteq> NULL" and Nnz: "next ev \<noteq> NULL"
    using ring_nonnull [OF ring Pin] ring_nonnull [OF ring Nin] by auto
  obtain s3 where run: "remove_lbr_state (Suc m) s e =
       bind_err (if lbr_state_list s3 \<noteq> NULL then remove_scan m s3 e (lbr_state_list s3)
                 else Inr s3) (\<lambda>s4. kfree s4 e)"
    and hd3: "lbr_state_list s3 = (if h = e then (if next ev = e then NULL else next ev) else h)"
    and fr3: "freed s3 = freed s" "msr s3 = msr s"
    and nl3: "\<forall>a. map_option (\<lambda>x. x\<lparr>prev := NULL, next := NULL\<rparr>) (mem s3 a) =
          map_option (\<lambda>x. x\<lparr>prev := NULL, next := NULL\<rparr>) (mem s a)"
    and nx3: "\<And>a. map_option next (mem s3 a) =
       (if a = prev ev then Some (next ev) else map_option next (mem s a))"
    and pv3: "\<And>a. map_option prev (mem s3 a) =
       (if a = next ev then Some (prev ev) else map_option prev (mem s a))"
    using remove_lbr_state_unlink [OF enz hd ev refl refl Pnz Nnz pv nv, of m] by blast
  have "ring s3 (pre @ post)"
    by (rule unlink_ring [OF ring xs ev _ nx3 pv3]) (simp add: hd3 hd)
  moreover have "remove1 e xs = pre @ post"
    using xs epre by (simp add: remove1_append)
  ultimately have "ring s3 (remove1 e xs)" by simp
  with run fr3 nl3 show ?thesis by blast
qed

lemma remove_lbr_state_ring:
  assumes ring: "ring s xs" and mem: "e \<in> set xs"
    and childless: "\<forall>a\<in>set xs. map_option parent (mem s a) \<noteq> Some e"
    and fuel: "length xs \<le> n"
  shows "\<exists>s'. remove_lbr_state n s e = Inr s' \<and> ring s' (remove1 e xs) \<and>
     mem s' e = None \<and> freed s' = freed s @ [e] \<and> msr s' = msr s \<and>
     (\<forall>a. a \<noteq> e \<longrightarrow> map_option (\<lambda>x. x\<lparr>prev := NULL, next := NULL\<rparr>) (mem s' a) =
          map_option (\<lambda>x. x\<lparr>prev := NULL, next := NULL\<rparr>) (mem s a))"
proof -
  obtain m where n: "n = Suc m" and m: "length xs \<le> Suc m"
    using mem fuel by (cases n) auto
  have enz: "e \<noteq> NULL" using ring mem by (rule ring_nonnull)
  obtain ev where ev: "mem s e = Some ev" using ring_live [OF ring mem] by blast
  obtain s3 where run: "remove_lbr_state (Suc m) s e =
       bind_err (if lbr_state_list s3 \<noteq> NULL then remove_scan m s3 e (lbr_state_list s3)
                 else Inr s3) (\<lambda>s4. kfree s4 e)"
    and ring3: "ring s3 (remove1 e xs)"
    and fr3: "freed s3 = freed s" "msr s3 = msr s"
    and nl3: "\<And>a. map_option (\<lambda>x. x\<lparr>prev := NULL, next := NULL\<rparr>) (mem s3 a) =
          map_option (\<lambda>x. x\<lparr>prev := NULL, next := NULL\<rparr>) (mem s a)"
    using remove_lbr_state_unlink_ring [OF ring mem, of m] by blast
  have scan: "(if lbr_state_list s3 \<noteq> NULL then remove_scan m s3 e (lbr_state_list s3)
                 else Inr s3) = Inr s3"
  proof (cases "remove1 e xs")
    case Nil
    then show ?thesis using ring3 by (simp add: ring_def)
  next
    case (Cons a list)
    have "remove_scan m s3 e (lbr_state_list s3) = Inr s3"
    proof (rule remove_scan_ring [OF ring3])
      show "\<forall>a\<in>set (remove1 e xs). map_option parent (mem s3 a) \<noteq> Some e"
        using childless notin_set_remove1 [of _ xs e] by (auto simp: nonlink_parent [OF nl3])
      show "length (remove1 e xs) \<le> m" using m mem by (simp add: length_remove1)
    qed (use Cons in simp)
    then show ?thesis by simp
  qed
  obtain ev3 where ev3: "mem s3 e = Some ev3"
    using nl3 [of e] ev by (cases "mem s3 e") auto
  let ?s' = "s3\<lparr>mem := (mem s3)(e := None), freed := freed s3 @ [e]\<rparr>"
  have res: "remove_lbr_state n s e = Inr ?s'"
    using run scan ev3 enz n by (simp add: kfree_def)
  have enot: "e \<notin> set (remove1 e xs)" using ring by (simp add: ring_def)
  have "ring ?s' (remove1 e xs)"
    by (rule ring_cong [OF ring3]) (use enot in auto)
  then show ?thesis
    using res fr3 nl3 by (intro exI [of _ ?s']) simp
qed

section \<open>Sequences of insertions and removals without parents\<close>

text \<open>
  As long as no entry has a parent (the dispatcher creates every entry with
  \<open>parent = NULL\<close>), every sequence of insertions of new entries and removals of members,
  started on the empty store, runs to the end and leaves a ring: the forward traversal
  visits the members in order, the backward traversal visits the same members, and both
  have the length of the member list.
\<close>

lemma walk_path:
  assumes "successively (\<lambda>a b. map_option link (mem s a) = Some b) (tmp # ys @ [h])"
    and "lbr_state_list s = h" and "h \<notin> set ys" and "NULL \<notin> set (tmp # ys)"
    and "length ys < n"
  shows "walk link n s tmp = Inr (tmp # ys)"
  using assms
proof (induction ys arbitrary: tmp n)
  case Nil
  then obtain m where n: "n = Suc m" by (cases n) auto
  from Nil obtain v where v: "mem s tmp = Some v" "link v = h" by auto
  show ?case using Nil.prems v n by (simp add: load_live)
next
  case (Cons y ys)
  then obtain m where n: "n = Suc m" by (cases n) auto
  from Cons.prems obtain v where v: "mem s tmp = Some v" "link v = y" by auto
  have ih: "walk link m s y = Inr (y # ys)"
    using Cons.prems n by (intro Cons.IH) auto
  show ?case using Cons.prems v n ih by (auto simp: load_live)
qed

lemma traverse_ring:
  assumes "ring s xs" and "length xs \<le> n"
  shows "traverse next n s = Inr xs \<and> traverse prev n s = Inr (backward xs)"
proof (cases xs)
  case Nil
  then show ?thesis using assms by (simp add: ring_def traverse_def backward_def)
next
  case (Cons h t)
  have fw: "successively (\<lambda>a b. map_option next (mem s a) = Some b) (h # t @ [h])"
    using assms(1) unfolding Cons ring_def
    by (auto elim!: successively_mono simp: dlinked_def)
  have "walk next n s h = Inr (h # t)"
    by (rule walk_path [OF fw]) (use assms Cons in \<open>auto simp: ring_def\<close>)
  moreover have "walk prev n s h = Inr (h # rev t)"
    by (rule walk_path [OF ring_backward [OF assms(1) [unfolded Cons]]])
       (use assms Cons in \<open>auto simp: ring_def\<close>)
  ultimately show ?thesis using assms Cons by (auto simp: ring_def traverse_def backward_def)
qed

lemma length_backward [simp]: "length (backward xs) = length xs"
  by (cases xs) (auto simp: backward_def)

lemma nonlink_dom:
  assumes "map_option (\<lambda>x. x\<lparr>prev := NULL, next := NULL\<rparr>) (mem s' a) =
          map_option (\<lambda>x. x\<lparr>prev := NULL, next := NULL\<rparr>) (mem s a)"
  shows "mem s' a = None \<longleftrightarrow> mem s a = None"
  using assms by (cases "mem s a"; cases "mem s' a") auto

lemma length_members_after: "length (members_after ops xs) \<le> length xs + length ops"
proof (induction ops xs rule: members_after.induct)
  case (3 a ops xs)
  have "length (remove1 a xs) \<le> length xs" by (simp add: length_remove1)
  with 3 show ?case by simp
qed simp_all

lemma run_ops_ring:
  assumes "ring s xs" and "dom (mem s) = L"
    and "\<forall>a v. mem s a = Some v \<longrightarrow> parent v = NULL"
    and "ops_ok L xs ops" and "length xs + length ops \<le> n"
  shows "\<exists>s'. run_ops n ops s = Inr s' \<and> ring s' (members_after ops xs)"
  using assms
proof (induction ops arbitrary: s xs L)
  case Nil
  then show ?case by simp
next
  case (Cons op ops)
  show ?case
  proof (cases op)
    case (Insert a)
    then have a: "a \<noteq> NULL" "a \<in> L" "a \<notin> set xs" and ok: "ops_ok L (xs @ [a]) ops"
      using Cons.prems(4) by auto
    obtain v where v: "mem s a = Some v" using a(2) Cons.prems(2) by auto
    obtain s1 where ins: "insert_lbr_state s a = Inr s1" and r1: "ring s1 (xs @ [a])"
      and nl: "\<And>b. map_option (\<lambda>x. x\<lparr>prev := NULL, next := NULL\<rparr>) (mem s1 b) =
          map_option (\<lambda>x. x\<lparr>prev := NULL, next := NULL\<rparr>) (mem s b)"
      using insert_lbr_state_ring [OF Cons.prems(1) a(3,1) v] by blast
    have d1: "dom (mem s1) = L"
      using nonlink_dom [OF nl] Cons.prems(2) by (auto simp: dom_def)
    have p1: "\<forall>b v. mem s1 b = Some v \<longrightarrow> parent v = NULL"
    proof (intro allI impI)
      fix b v assume "mem s1 b = Some v"
      then show "parent v = NULL"
        using nonlink_parent [OF nl [of b]] Cons.prems(3) by (cases "mem s b") auto
    qed
    have "\<exists>s'. run_ops n ops s1 = Inr s' \<and> ring s' (members_after ops (xs @ [a]))"
      by (rule Cons.IH [OF r1 d1 p1 ok]) (use Cons.prems(5) in simp)
    then show ?thesis using ins Insert by simp
  next
    case (Remove a)
    then have a: "a \<in> set xs" and ok: "ops_ok (L - {a}) (remove1 a xs) ops"
      using Cons.prems(4) by auto
    have anz: "a \<noteq> NULL" by (rule ring_nonnull [OF Cons.prems(1) a])
    have childless: "\<forall>b\<in>set xs. map_option parent (mem s b) \<noteq> Some a"
    proof
      fix b assume "b \<in> set xs"
      show "map_option parent (mem s b) \<noteq> Some a"
        using Cons.prems(3) anz by (cases "mem s b") auto
    qed
    obtain s1 where rem: "remove_lbr_state n s a = Inr s1" and r1: "ring s1 (remove1 a xs)"
      and gone: "mem s1 a = None"
      and nl: "\<And>b. b \<noteq> a \<Longrightarrow> map_option (\<lambda>x. x\<lparr>prev := NULL, next := NULL\<rparr>) (mem s1 b) =
          map_option (\<lambda>x. x\<lparr>prev := NULL, next := NULL\<rparr>) (mem s b)"
      using remove_lbr_state_ring [OF Cons.prems(1) a childless, of n] Cons.prems(5) by auto
    have d1: "dom (mem s1) = L - {a}"
    proof (rule set_eqI)
      fix b show "b \<in> dom (mem s1) \<longleftrightarrow> b \<in> L - {a}"
        using nonlink_dom [OF nl [of b]] gone Cons.prems(2) by (cases "b = a") (auto simp: dom_def)
    qed
    have p1: "\<forall>b v. mem s1 b = Some v \<longrightarrow> parent v = NULL"
    proof (intro allI impI)
      fix b v assume m: "mem s1 b = Some v"
      then have "b \<noteq> a" using gone by auto
      then show "parent v = NULL"
        using nonlink_parent [OF nl [of b]] m Cons.prems(3) by (cases "mem s b") auto
    qed
    have "length (remove1 a xs) \<le> length xs" by (simp add: length_remove1)
    then have "\<exists>s'. run_ops n ops s1 = Inr s' \<and> ring s' (members_after ops (remove1 a xs))"
      by (intro Cons.IH [OF r1 d1 p1 ok]) (use Cons.prems(5) in simp)
    then show ?thesis using rem Remove by simp
  qed
qed

lemma sequences_without_parents_keep_the_ring:
  assumes "ops_ok (dom m) [] ops" and "\<forall>a v. m a = Some v \<longrightarrow> parent v = NULL"
    and "length ops \<le> n"
  shows "\<exists>s'. run_ops n ops \<lparr>mem = m, freed = [], lbr_state_list = NULL, msr = hw\<rparr> = Inr s' \<and>
     ring s' (members_after ops []) \<and>
     traverse next n s' = Inr (members_after ops []) \<and>
     traverse prev n s' = Inr (backward (members_after ops []))"
proof -
  let ?s = "\<lparr>mem = m, freed = [], lbr_state_list = NULL, msr = hw\<rparr>"
  have "ring ?s []" by (simp add: ring_def)
  from run_ops_ring [OF this, of "dom m" ops n] assms
  obtain s' where s': "run_ops n ops ?s = Inr s'" "ring s' (members_after ops [])"
    by auto
  have "length (members_after ops []) \<le> n"
    using length_members_after [of ops "[]"] assms(3) by simp
  from traverse_ring [OF s'(2) this] s' show ?thesis by blast
qed

section \<open>The cascading removal and the teardown read freed storage\<close>

text \<open>
  A call of \<open>remove_lbr_state\<close> that gets past its two early returns and comes back has
  freed its argument. The scan, having called it for a child \<open>tmp\<close>, goes on with
  \<open>tmp = tmp->prev\<close>: a read of freed storage. So on a ring in which some other member
  names \<open>e\<close> as parent, \<open>remove_lbr_state\<close> of \<open>e\<close> never returns a store, whatever the
  step budget.
\<close>

lemma remove_lbr_state_frees:
  assumes "remove_lbr_state n s x = Inr s'" and "x \<noteq> NULL" and "lbr_state_list s \<noteq> NULL"
  shows "mem s' x = None \<and> x \<in> set (freed s')"
proof (cases n)
  case 0
  then show ?thesis using assms by simp
next
  case (Suc m)
  from assms show ?thesis
    unfolding Suc remove_lbr_state.simps Let_def
    by (simp del: remove_scan.simps) (blast dest!: bind_err_Inr dest: kfree_result)
qed

lemma remove_scan_child:
  assumes "successively (\<lambda>a b. map_option prev (mem s a) = Some b) (tmp # ys @ [h])"
    and "lbr_state_list s = h" and "h \<notin> set ys" and "NULL \<notin> set (tmp # ys)" and "h \<noteq> NULL"
    and "\<exists>a\<in>set (tmp # ys). map_option parent (mem s a) = Some old_state"
  shows "\<exists>err. remove_scan n s old_state tmp = Inl err"
  using assms
proof (induction ys arbitrary: tmp n)
  case Nil
  from Nil obtain v where v: "mem s tmp = Some v" "prev v = h" "parent v = old_state" by auto
  show ?case
  proof (cases n)
    case 0
    then show ?thesis by simp
  next
    case (Suc m)
    show ?thesis
    proof (cases "remove_lbr_state m s tmp")
      case (Inl e)
      then show ?thesis using Suc v Nil.prems by (simp add: load_live)
    next
      case (Inr s1)
      then have "mem s1 tmp = None \<and> tmp \<in> set (freed s1)"
        using Nil.prems by (intro remove_lbr_state_frees [of m s tmp]) auto
      then show ?thesis using Suc v Nil.prems Inr by (simp add: load_live) (simp add: load_def dangling_def)
    qed
  qed
next
  case (Cons y ys)
  from Cons.prems obtain v where v: "mem s tmp = Some v" "prev v = y" by auto
  show ?case
  proof (cases n)
    case 0
    then show ?thesis by simp
  next
    case (Suc m)
    show ?thesis
    proof (cases "parent v = old_state")
      case True
      show ?thesis
      proof (cases "remove_lbr_state m s tmp")
        case (Inl e)
        then show ?thesis using Suc v True Cons.prems by (simp add: load_live)
      next
        case (Inr s1)
        then have "mem s1 tmp = None \<and> tmp \<in> set (freed s1)"
          using Cons.prems by (intro remove_lbr_state_frees [of m s tmp]) auto
        then show ?thesis
          using Suc v True Cons.prems Inr by (simp add: load_live) (simp add: load_def dangling_def)
      qed
    next
      case False
      have "\<exists>err. remove_scan m s old_state y = Inl err"
        using Cons.prems v False by (intro Cons.IH) auto
      then show ?thesis using Suc v False Cons.prems by (auto simp: load_live)
    qed
  qed
qed

lemma remove_lbr_state_with_child:
  assumes ring: "ring s xs" and mem: "e \<in> set xs"
    and child: "ch \<in> set xs" "ch \<noteq> e" "map_option parent (mem s ch) = Some e"
  shows "\<exists>err. remove_lbr_state n s e = Inl err"
proof (cases n)
  case 0
  then show ?thesis by simp
next
  case (Suc m)
  obtain s3 where run: "remove_lbr_state (Suc m) s e =
       bind_err (if lbr_state_list s3 \<noteq> NULL then remove_scan m s3 e (lbr_state_list s3)
                 else Inr s3) (\<lambda>s4. kfree s4 e)"
    and ring3: "ring s3 (remove1 e xs)"
    and nl3: "\<And>a. map_option (\<lambda>x. x\<lparr>prev := NULL, next := NULL\<rparr>) (mem s3 a) =
          map_option (\<lambda>x. x\<lparr>prev := NULL, next := NULL\<rparr>) (mem s a)"
    using remove_lbr_state_unlink_ring [OF ring mem, of m] by blast
  have chin: "ch \<in> set (remove1 e xs)" using child(1,2) by simp
  then obtain h3 t3 where ht3: "remove1 e xs = h3 # t3" by (cases "remove1 e xs") auto
  have l3: "lbr_state_list s3 = h3" "h3 \<noteq> NULL"
    using ring3 ring_nonnull [OF ring3, of h3] unfolding ht3 by (auto simp: ring_def)
  have "\<exists>err. remove_scan m s3 e h3 = Inl err"
  proof (rule remove_scan_child)
    show "successively (\<lambda>a b. map_option prev (mem s3 a) = Some b) (h3 # rev t3 @ [h3])"
      by (rule ring_backward [OF ring3 [unfolded ht3]])
    show "\<exists>a\<in>set (h3 # rev t3). map_option parent (mem s3 a) = Some e"
      using chin child(3) unfolding ht3 by (auto simp: nonlink_parent [OF nl3])
  qed (use ring3 l3 in \<open>auto simp: ht3 ring_def\<close>)
  then show ?thesis using run l3 Suc by auto
qed

text \<open>The teardown frees the anchor and then reads its \<open>prev\<close>: on every non-empty
  store the first iteration reads freed storage.\<close>

lemma exit_reads_freed_anchor:
  assumes "lbr_state_list s \<noteq> NULL" and "mem s (lbr_state_list s) = Some v"
  shows "libiht_lkm_exit (Suc n) c s = Inl UseAfterFree"
  using assms by (simp add: libiht_lkm_exit_def kfree_def load_def dangling_def)



text \<open>
  Claim C1 (the link structure stays consistent under every sequence of inserts and
  removes). On the sequence insert(1), insert(2) with entry 2 a child of entry 1,
  remove(1), the code does not reach a consistent store: the scan for children inside
  \<open>remove_lbr_state\<close> frees the child through the recursive call and then reads
  \<open>tmp->prev\<close> of the freed child. (Sequences in which no entry has a parent do keep the
  ring: \<open>sequences_without_parents_keep_the_ring\<close>.)
\<close>

theorem insert_insert_remove_use_after_free:
  "run_ops (Suc (Suc (Suc n))) [Insert 1, Insert 2, Remove 1]
     (empty_store\<lparr>mem := [1 \<mapsto> entry 100 NULL NULL NULL, 2 \<mapsto> entry 101 1 NULL NULL]\<rparr>)
   = Inl UseAfterFree"
  by (simp add: insert_lbr_state_def ex_defs op_defs)

text \<open>
  Claim C2 (removing an entry with N descendants removes exactly N+1 entries). With one
  descendant the removal stops in a read of freed storage, whatever the step budget.
\<close>

theorem remove_parent_use_after_free:
  "remove_lbr_state (Suc (Suc (Suc n))) parent_child 1 = Inl UseAfterFree"
  by (simp add: ex_defs op_defs)

text \<open>
  Claim C5 (teardown never reads an entry after releasing it). The loop of
  \<open>libiht_lkm_exit\<close> frees \<open>tmp\<close> and then reads \<open>tmp->prev\<close>: already with a single
  entry the first iteration reads freed storage.
\<close>

theorem exit_use_after_free:
  "libiht_lkm_exit (Suc n) example_config one_entry = Inl UseAfterFree"
  by (simp add: libiht_lkm_exit_def ex_defs op_defs)

lemma exit_parent_child_use_after_free:
  "libiht_lkm_exit (Suc n) example_config parent_child = Inl UseAfterFree"
  by (simp add: libiht_lkm_exit_def ex_defs op_defs)

section \<open>The dispatcher\<close>

text \<open>
  Claim C6 (a dump request for a process without an entry is rejected with a negative
  status). Disabling process 100 empties the store and returns 0; the dump request for
  process 100 that follows returns 0 as well, not a negative status.
\<close>

theorem disable_then_dump_returns_zero:
  "bind_err (device_ioctl (Suc (Suc n)) example_config 100 NULL 0
        \<lparr>req_lbr_select = 0, req_pid = 100\<rparr> 2 0 one_entry)
     (\<lambda>r. device_ioctl (Suc (Suc n)) example_config 100 NULL 0
        \<lparr>req_lbr_select = 0, req_pid = 100\<rparr> 3 0 (snd r))
   = Inr (0, \<lparr>mem = Map.empty, freed = [1], lbr_state_list = NULL, msr = (\<lambda>r. 0)\<rparr>)"
  by (simp add: device_ioctl_def dump_lbr_def find_lbr_state_def ex_defs op_defs)

lemma dump_not_found_returns_zero:
  assumes "find_lbr_state n s (req_pid request) = Inr NULL"
    and "ioctl_cmd = LIBIHT_LKM_IOC_DUMP_LBR c"
    and "ioctl_cmd \<noteq> LIBIHT_LKM_IOC_ENABLE_TRACE c"
    and "ioctl_cmd \<noteq> LIBIHT_LKM_IOC_DISABLE_TRACE c"
  shows "device_ioctl n c cur a 0 request ioctl_cmd ioctl_param s = Inr (0, s)"
  using assms by (simp add: device_ioctl_def dump_lbr_def bind_err_def)

text \<open>
  Claim C8 (a successful enable request loads the hardware registers from the new
  entry). A request with process id 0 creates the entry for the caller (process 100) with
  the default mask 1, but \<open>put_lbr\<close> is called with the request's id 0, finds no entry
  and writes nothing: \<open>MSR_LBR_SELECT\<close> (register 456) keeps its old value 0.
\<close>

theorem enable_own_process_loads_nothing:
  "device_ioctl (Suc n) example_config 100 1 0 \<lparr>req_lbr_select = 0, req_pid = 0\<rparr> 1 0 empty_store
   = Inr (0, \<lparr>mem = [1 \<mapsto> \<lparr>lbr_select = 1, lbr_tos = 0, entries = [(0, 0), (0, 0)],
                             pid = 100, prev = 1, next = 1, parent = NULL\<rparr>],
              freed = [], lbr_state_list = 1, msr = (\<lambda>r. 0)\<rparr>)"
  by (simp add: device_ioctl_def create_lbr_state_def zero_state_def insert_lbr_state_def
      put_lbr_def find_lbr_state_def ex_defs op_defs)

text \<open>The same request with the process id written out does load the registers.\<close>

lemma enable_named_process_loads:
  "device_ioctl (Suc n) example_config 100 1 0 \<lparr>req_lbr_select = 0, req_pid = 100\<rparr> 1 0 empty_store
   = Inr (0, \<lparr>mem = [1 \<mapsto> \<lparr>lbr_select = 1, lbr_tos = 0, entries = [(0, 0), (0, 0)],
                             pid = 100, prev = 1, next = 1, parent = NULL\<rparr>],
              freed = [], lbr_state_list = 1, msr = (\<lambda>r. 0)(456 := 1)\<rparr>)"
  by (auto simp: device_ioctl_def create_lbr_state_def zero_state_def insert_lbr_state_def
      put_lbr_def find_lbr_state_def load_entry_def wrmsrl_def ex_defs op_defs fun_eq_iff)

text \<open>
  Claim C7: a request whose transfer was partial (\<open>copy_from_user\<close> returns a nonzero
  count), and a request with a command code that is none of the four, is answered with a
  negative status, and the state (store and registers) is returned as it was.
\<close>

theorem device_ioctl_rejects:
  assumes "ret \<noteq> 0 \<or> ioctl_cmd \<notin> {LIBIHT_LKM_IOC_ENABLE_TRACE c, LIBIHT_LKM_IOC_DISABLE_TRACE c,
     LIBIHT_LKM_IOC_DUMP_LBR c, LIBIHT_LKM_IOC_SELECT_LBR c}"
  shows "\<exists>status. device_ioctl n c cur a ret request ioctl_cmd ioctl_param s = Inr (status, s)
     \<and> status < 0"
  using assms by (auto simp: device_ioctl_def EINVAL_def)

text \<open>Witness for C7: a partial transfer of an enable request, and the unknown command
  code 9, both on the store with one entry.\<close>

theorem device_ioctl_rejects_witness:
  "(\<exists>status. device_ioctl 5 example_config 100 2 3 \<lparr>req_lbr_select = 0, req_pid = 7\<rparr> 1 0 one_entry
       = Inr (status, one_entry) \<and> status < 0) \<and>
   (\<exists>status. device_ioctl 5 example_config 100 2 0 \<lparr>req_lbr_select = 0, req_pid = 7\<rparr> 9 0 one_entry
       = Inr (status, one_entry) \<and> status < 0)"
  using device_ioctl_rejects [of 3 1 example_config 5 100 2 "\<lparr>req_lbr_select = 0, req_pid = 7\<rparr>" 0 one_entry]
    device_ioctl_rejects [of 0 9 example_config 5 100 2 "\<lparr>req_lbr_select = 0, req_pid = 7\<rparr>" 0 one_entry]
  by (simp add: example_config_def)

section \<open>Insertion\<close>

text \<open>
  Claim C10: on a non-empty store \<open>insert_lbr_state\<close> leaves the anchor pointer as it
  was and makes the new entry the anchor's predecessor (and the anchor the new entry's
  successor); no entry other than the anchor, its former predecessor and the new entry
  changes at all, and in these three only the link fields \<open>prev\<close> and \<open>next\<close> can
  change. The set of freed addresses and the registers are untouched.
\<close>

theorem insert_lbr_state_frame:
  assumes "lbr_state_list s = head" and "head \<noteq> NULL" and "mem s head = Some h"
    and "prev h \<noteq> NULL" and "mem s (prev h) = Some t"
    and "new_state \<noteq> NULL" and "mem s new_state = Some v"
  shows "\<exists>s'. insert_lbr_state s new_state = Inr s' \<and>
     lbr_state_list s' = head \<and> freed s' = freed s \<and> msr s' = msr s \<and>
     map_option prev (mem s' head) = Some new_state \<and>
     map_option next (mem s' new_state) = Some head \<and>
     (\<forall>a. a \<noteq> head \<and> a \<noteq> prev h \<and> a \<noteq> new_state \<longrightarrow> mem s' a = mem s a) \<and>
     (\<forall>a. map_option (\<lambda>x. x\<lparr>prev := NULL, next := NULL\<rparr>) (mem s' a) =
          map_option (\<lambda>x. x\<lparr>prev := NULL, next := NULL\<rparr>) (mem s a))"
  using assms
  by (auto simp: insert_lbr_state_def Let_def store_def load_def)

text \<open>Witness for C10: the store with one entry at address 1, and a new object at
  address 2 to insert.\<close>

theorem insert_lbr_state_frame_witness:
  "\<exists>s'. insert_lbr_state (one_entry\<lparr>mem := (mem one_entry)(2 \<mapsto> entry 101 NULL NULL NULL)\<rparr>) 2 = Inr s' \<and>
     lbr_state_list s' = 1 \<and> freed s' = [] \<and>
     map_option prev (mem s' 1) = Some 2 \<and> map_option next (mem s' 2) = Some 1 \<and>
     mem s' 3 = None"
proof -
  let ?s = "one_entry\<lparr>mem := (mem one_entry)(2 \<mapsto> entry 101 NULL NULL NULL)\<rparr>"
  from insert_lbr_state_frame [of ?s 1 "entry 100 NULL 1 1" "entry 100 NULL 1 1" 2
      "entry 101 NULL NULL NULL"]
  obtain s' where "insert_lbr_state ?s 2 = Inr s'" "lbr_state_list s' = 1" "freed s' = freed ?s"
    "map_option prev (mem s' 1) = Some 2" "map_option next (mem s' 2) = Some 1"
    "\<forall>a. a \<noteq> 1 \<and> a \<noteq> prev (entry 100 NULL 1 1) \<and> a \<noteq> 2 \<longrightarrow> mem s' a = mem ?s a"
    by (auto simp: ex_defs)
  moreover from this have "mem s' 3 = None" by (simp add: ex_defs)
  ultimately show ?thesis by (auto simp: ex_defs)
qed


section \<open>Save and restore\<close>

text \<open>
  Let \<open>find_lbr_state\<close> return the entry \<open>state\<close> for \<open>cur\<close>, with an array of at
  least \<open>lbr_capacity\<close> pairs. Then \<open>save_lbr\<close> returns; the entry then holds the
  values of the selection register, the top-of-stack register and the \<open>lbr_capacity\<close>
  register pairs as they were at the save; and a \<open>restore_lbr\<close> that follows, whatever
  the registers \<open>hw\<close> hold by then, returns with every one of those registers holding the
  value it had at the save, every other register as in \<open>hw\<close>, and the store unchanged.
\<close>

lemma save_restore_found:
  assumes "find_lbr_state n s cur = Inr state" and "state \<noteq> NULL"
    and "mem s state = Some t" and "lbr_capacity c \<le> length (entries t)"
  shows "\<exists>s1 t1. save_lbr n c cur s = Inr s1 \<and> mem s1 state = Some t1 \<and> pid t1 = pid t \<and>
     lbr_select t1 = msr s (MSR_LBR_SELECT c) \<and> lbr_tos t1 = msr s (MSR_LBR_TOS c) \<and>
     (\<forall>i<lbr_capacity c. entries t1 ! i =
         (msr s (MSR_LBR_NHM_FROM c + i), msr s (MSR_LBR_NHM_TO c + i))) \<and>
     (\<forall>hw. \<exists>s2. restore_lbr n c cur (s1\<lparr>msr := hw\<rparr>) = Inr s2 \<and> mem s2 = mem s1 \<and>
         (\<forall>r. msr s2 r = (if r \<in> lbr_registers c then msr s r else hw r)))"
proof -
  let ?snap = "fold (\<lambda>i es. es[i := (msr s (MSR_LBR_NHM_FROM c + i), msr s (MSR_LBR_NHM_TO c + i))])
     [0..<lbr_capacity c] (entries t)"
  let ?t0 = "t\<lparr>lbr_select := msr s (MSR_LBR_SELECT c), lbr_tos := msr s (MSR_LBR_TOS c)\<rparr>"
  let ?s0 = "s\<lparr>mem := (mem s)(state \<mapsto> ?t0)\<rparr>"
  let ?t1 = "?t0\<lparr>entries := ?snap\<rparr>"
  let ?s1 = "s\<lparr>mem := (mem s)(state \<mapsto> ?t1)\<rparr>"
  have inb: "\<forall>i\<in>set [0..<lbr_capacity c]. i < length (entries ?t0)"
    using assms(4) by simp
  have "get_lbr_loop c state [0..<lbr_capacity c] ?s0 =
      Inr (?s0\<lparr>mem := (mem ?s0)(state \<mapsto> ?t0\<lparr>entries :=
        fold (\<lambda>i es. es[i := (msr ?s0 (MSR_LBR_NHM_FROM c + i), msr ?s0 (MSR_LBR_NHM_TO c + i))])
          [0..<lbr_capacity c] (entries ?t0)\<rparr>)\<rparr>)"
    using assms(2) inb by (intro get_lbr_loop_result) auto
  then have loop: "get_lbr_loop c state [0..<lbr_capacity c] ?s0 = Inr ?s1"
    by simp
  have save: "save_lbr n c cur s = Inr ?s1"
    using assms(1,2,3) loop by (simp add: save_lbr_def get_lbr_def store_live rdmsrl_def)
  have snap: "\<forall>i<lbr_capacity c. ?snap ! i =
         (msr s (MSR_LBR_NHM_FROM c + i), msr s (MSR_LBR_NHM_TO c + i))"
    using assms(4) by (simp add: snapshot_nth)
  have restore: "\<exists>s2. restore_lbr n c cur (?s1\<lparr>msr := hw\<rparr>) = Inr s2 \<and> mem s2 = mem ?s1 \<and>
         (\<forall>r. msr s2 r = (if r \<in> lbr_registers c then msr s r else hw r))" for hw
  proof -
    let ?s1' = "?s1\<lparr>msr := hw\<rparr>"
    let ?m0 = "hw(MSR_LBR_SELECT c := msr s (MSR_LBR_SELECT c), MSR_LBR_TOS c := msr s (MSR_LBR_TOS c))"
    let ?s1'' = "?s1'\<lparr>msr := ?m0\<rparr>"
    have "find_lbr_state n ?s1' cur = find_lbr_state n s cur"
      by (rule find_lbr_state_cong) (use assms(3) in auto)
    then have f: "find_lbr_state n ?s1' cur = Inr state"
      using assms(1) by simp
    have inb1: "\<forall>i\<in>set [0..<lbr_capacity c]. i < length (entries ?t1)"
      using assms(4) by (simp add: snapshot_length)
    have "put_lbr_loop c state [0..<lbr_capacity c] ?s1'' =
      Inr (?s1''\<lparr>msr := fold (\<lambda>i m. m(MSR_LBR_NHM_FROM c + i := fst (entries ?t1 ! i),
                                  MSR_LBR_NHM_TO c + i := snd (entries ?t1 ! i))) [0..<lbr_capacity c] (msr ?s1'')\<rparr>)"
      using assms(2) inb1 by (intro put_lbr_loop_result) auto
    then have r: "restore_lbr n c cur ?s1' =
      Inr (?s1''\<lparr>msr := fold (\<lambda>i m. m(MSR_LBR_NHM_FROM c + i := fst (?snap ! i),
                                  MSR_LBR_NHM_TO c + i := snd (?snap ! i))) [0..<lbr_capacity c] ?m0\<rparr>)"
      using f assms(2) by (simp add: restore_lbr_def put_lbr_def load_live wrmsrl_def)
    have w: "fold (\<lambda>i m. m(MSR_LBR_NHM_FROM c + i := fst (?snap ! i),
                                  MSR_LBR_NHM_TO c + i := snd (?snap ! i))) [0..<lbr_capacity c] ?m0 r =
       (if r \<in> (\<lambda>i. MSR_LBR_NHM_FROM c + i) ` set [0..<lbr_capacity c] \<union> (\<lambda>i. MSR_LBR_NHM_TO c + i) ` set [0..<lbr_capacity c]
        then msr s r else ?m0 r)" for r
      by (rule write_back_apply) (use snap in simp)
    show ?thesis
      unfolding r by (auto simp: w lbr_registers_def lessThan_atLeast0)
  qed
  show ?thesis
    using save snap restore by (intro exI [of _ ?s1] exI [of _ ?t1]) simp
qed

text \<open>
  Claim C4: on a store that satisfies the store invariant, with a step budget of at least
  the length of the ring, let some member have the process id \<open>cur\<close>. Then a leave event
  (\<open>save_lbr\<close>) returns and a member \<open>state\<close> with process id \<open>cur\<close> holds the values
  that the selection register, the top-of-stack register and the \<open>lbr_capacity\<close>
  register pairs had at the save; and an enter event (\<open>restore_lbr\<close>) for \<open>cur\<close> that
  follows, whatever the registers \<open>hw\<close> hold by then, returns with every one of those
  registers holding the value it had at the save, every other register as in \<open>hw\<close>, and
  the store unchanged.
\<close>

theorem save_restore_roundtrip:
  assumes "store_inv c s xs" and "length xs \<le> n"
    and "e \<in> set xs" and "map_option pid (mem s e) = Some cur"
  shows "\<exists>s1 state t1. save_lbr n c cur s = Inr s1 \<and> state \<in> set xs \<and>
     mem s1 state = Some t1 \<and> pid t1 = cur \<and>
     lbr_select t1 = msr s (MSR_LBR_SELECT c) \<and> lbr_tos t1 = msr s (MSR_LBR_TOS c) \<and>
     (\<forall>i<lbr_capacity c. entries t1 ! i =
         (msr s (MSR_LBR_NHM_FROM c + i), msr s (MSR_LBR_NHM_TO c + i))) \<and>
     (\<forall>hw. \<exists>s2. restore_lbr n c cur (s1\<lparr>msr := hw\<rparr>) = Inr s2 \<and> mem s2 = mem s1 \<and>
         (\<forall>r. msr s2 r = (if r \<in> lbr_registers c then msr s r else hw r)))"
proof -
  let ?st = "first_with_pid s cur (backward xs)"
  have ring: "ring s xs" using assms(1) by (simp add: store_inv_def)
  have f: "find_lbr_state n s cur = Inr ?st"
    by (rule find_lbr_state_ring [OF ring assms(2)])
  have st: "?st \<in> set xs" "map_option pid (mem s ?st) = Some cur"
    using first_with_pid_cases [of s cur "backward xs"] assms(3,4) by auto
  then obtain t where t: "mem s ?st = Some t" "pid t = cur" "lbr_capacity c \<le> length (entries t)"
    using assms(1) by (auto simp: store_inv_def)
  have nz: "?st \<noteq> NULL" by (rule ring_nonnull [OF ring st(1)])
  from save_restore_found [OF f nz t(1,3)] show ?thesis
    using st(1) t(2) by blast
qed

text \<open>Witness for C4: process 100 is saved while each register holds its own number,
  and restored after all registers were cleared.\<close>

theorem save_restore_roundtrip_witness:
  "find_lbr_state 1 traced_store 100 = Inr 1 \<and>
   (\<exists>s1 s2. save_lbr 1 example_config 100 traced_store = Inr s1 \<and>
      map_option lbr_select (mem s1 1) = Some 456 \<and>
      restore_lbr 1 example_config 100 (s1\<lparr>msr := (\<lambda>r. 0)\<rparr>) = Inr s2 \<and>
      msr s2 456 = 456 \<and> msr s2 457 = 457 \<and> msr s2 1664 = 1664 \<and> msr s2 1665 = 1665 \<and>
      msr s2 1728 = 1728 \<and> msr s2 1729 = 1729 \<and> msr s2 473 = 0)"
proof -
  have f: "find_lbr_state 1 traced_store 100 = Inr 1"
    by (simp add: find_lbr_state_def traced_store_def entry_def load_def)
  have regs: "lbr_registers example_config = {456, 457, 1664, 1665, 1728, 1729}"
    by (auto simp: lbr_registers_def example_config_def lessThan_nat_numeral lessThan_Suc)
  have inv: "store_inv example_config traced_store [1]"
    by (simp add: store_inv_def ring_def dlinked_def traced_store_def entry_def example_config_def)
  from save_restore_roundtrip [OF inv, of 1 1 100]
  obtain s1 t1 where s1: "save_lbr 1 example_config 100 traced_store = Inr s1"
      "mem s1 1 = Some t1" "lbr_select t1 = msr traced_store (MSR_LBR_SELECT example_config)"
    and r: "\<And>hw. \<exists>s2. restore_lbr 1 example_config 100 (s1\<lparr>msr := hw\<rparr>) = Inr s2 \<and> mem s2 = mem s1 \<and>
         (\<forall>r. msr s2 r = (if r \<in> lbr_registers example_config then msr traced_store r else hw r))"
    by (auto simp: traced_store_def entry_def example_config_def)
  from r [of "\<lambda>r. 0"] obtain s2 where s2: "restore_lbr 1 example_config 100 (s1\<lparr>msr := (\<lambda>r. 0)\<rparr>) = Inr s2"
    "\<And>r. msr s2 r = (if r \<in> lbr_registers example_config then msr traced_store r else 0)"
    by blast
  show ?thesis
    using f s1 s2(1) by (simp add: s2(2) regs) (simp add: traced_store_def example_config_def)
qed

section \<open>Lookup after insertion and removal\<close>

text \<open>
  Claim C9 as stated (after \<open>insert_lbr_state(e)\<close>, \<open>find_lbr_state(e.pid)\<close> returns
  \<open>e\<close>) fails: the traversal starts at the anchor, so when the anchor already has the
  process id of the new entry, the anchor is returned. Here the store holds the entry at
  address 1 for process 100, the entry at address 2 for process 100 is inserted, and the
  lookup of 100 returns address 1.
\<close>

theorem find_after_insert_counterexample:
  "bind_err (insert_lbr_state (one_entry\<lparr>mem := (mem one_entry)(2 \<mapsto> entry 100 NULL NULL NULL)\<rparr>) 2)
     (\<lambda>s'. find_lbr_state (Suc (Suc 0)) s' (pid (entry 100 NULL NULL NULL))) = Inr 1"
  by (simp add: insert_lbr_state_def find_lbr_state_def ex_defs op_defs)


text \<open>
  Claim C9, amended. Let the store be a ring over \<open>xs\<close> and the step budget exceed the
  length of \<open>xs\<close>. (1) After \<open>insert_lbr_state\<close> of a live entry \<open>e\<close> that is not in the
  ring, \<open>find_lbr_state\<close> for the process id of \<open>e\<close> returns \<open>e\<close>, unless the anchor
  has the same process id, in which case it returns the anchor. (2) For a member \<open>e\<close>
  that no member names as its parent, \<open>remove_lbr_state\<close> returns, the store is the ring
  over the remaining members, \<open>e\<close> is no longer live, and \<open>find_lbr_state\<close> returns, for
  every process id, the first remaining member (in traversal order) with that id, or
  \<open>NULL\<close>; this is never \<open>e\<close>.
\<close>

theorem find_after_insert_remove:
  assumes "ring s xs" and "length xs < n"
  shows "(e \<notin> set xs \<and> e \<noteq> NULL \<and> mem s e = Some ev \<longrightarrow>
      (\<exists>s'. insert_lbr_state s e = Inr s' \<and>
         find_lbr_state n s' (pid ev) =
           Inr (if xs \<noteq> [] \<and> map_option pid (mem s (hd xs)) = Some (pid ev) then hd xs else e))) \<and>
    (e \<in> set xs \<and> (\<forall>a\<in>set xs. map_option parent (mem s a) \<noteq> Some e) \<longrightarrow>
      (\<exists>s'. remove_lbr_state n s e = Inr s' \<and> ring s' (remove1 e xs) \<and> mem s' e = None \<and>
         (\<forall>p. find_lbr_state n s' p = Inr (first_with_pid s p (backward (remove1 e xs))) \<and>
              first_with_pid s p (backward (remove1 e xs)) \<noteq> e)))"
proof (intro conjI impI)
  assume a: "e \<notin> set xs \<and> e \<noteq> NULL \<and> mem s e = Some ev"
  then obtain s' where ins: "insert_lbr_state s e = Inr s'" and r': "ring s' (xs @ [e])"
    and nl: "\<And>a. map_option (\<lambda>x. x\<lparr>prev := NULL, next := NULL\<rparr>) (mem s' a) =
          map_option (\<lambda>x. x\<lparr>prev := NULL, next := NULL\<rparr>) (mem s a)"
    using insert_lbr_state_ring [OF assms(1), of e ev] by blast
  have pid': "map_option pid (mem s' a) = map_option pid (mem s a)" for a
    by (rule nonlink_pid [OF nl])
  have "find_lbr_state n s' (pid ev) = Inr (first_with_pid s' (pid ev) (backward (xs @ [e])))"
    by (rule find_lbr_state_ring [OF r']) (use assms(2) in simp)
  also have "first_with_pid s' (pid ev) (backward (xs @ [e])) =
      first_with_pid s (pid ev) (backward (xs @ [e]))"
    by (rule first_with_pid_cong) (rule pid')
  also have "\<dots> = (if xs \<noteq> [] \<and> map_option pid (mem s (hd xs)) = Some (pid ev) then hd xs else e)"
    using a by (cases xs) (auto simp: first_with_pid_def backward_def)
  finally show "\<exists>s'. insert_lbr_state s e = Inr s' \<and>
         find_lbr_state n s' (pid ev) =
           Inr (if xs \<noteq> [] \<and> map_option pid (mem s (hd xs)) = Some (pid ev) then hd xs else e)"
    using ins by blast
next
  assume b: "e \<in> set xs \<and> (\<forall>a\<in>set xs. map_option parent (mem s a) \<noteq> Some e)"
  then obtain s' where rem: "remove_lbr_state n s e = Inr s'" and r': "ring s' (remove1 e xs)"
    and gone: "mem s' e = None"
    and nl: "\<And>a. a \<noteq> e \<Longrightarrow> map_option (\<lambda>x. x\<lparr>prev := NULL, next := NULL\<rparr>) (mem s' a) =
          map_option (\<lambda>x. x\<lparr>prev := NULL, next := NULL\<rparr>) (mem s a)"
    using remove_lbr_state_ring [OF assms(1), of e n] assms(2) by auto
  have dist: "distinct xs" using assms(1) by (simp add: ring_def)
  have enz: "e \<noteq> NULL" by (rule ring_nonnull [OF assms(1)]) (use b in simp)
  have rest: "set (remove1 e xs) = set xs - {e}" using dist by simp
  have pid': "map_option pid (mem s' a) = map_option pid (mem s a)" if "a \<noteq> e" for a
    by (rule nonlink_pid [OF nl [OF that]])
  have "find_lbr_state n s' p = Inr (first_with_pid s p (backward (remove1 e xs))) \<and>
              first_with_pid s p (backward (remove1 e xs)) \<noteq> e" for p
  proof -
    have "find_lbr_state n s' p = Inr (first_with_pid s' p (backward (remove1 e xs)))"
      by (rule find_lbr_state_ring [OF r']) (use assms(2) in \<open>auto simp: length_remove1\<close>)
    moreover have "first_with_pid s' p (backward (remove1 e xs)) =
        first_with_pid s p (backward (remove1 e xs))"
      by (rule first_with_pid_cong) (use rest pid' in auto)
    moreover have "first_with_pid s p (backward (remove1 e xs)) \<noteq> e"
      using first_with_pid_cases [of s p "backward (remove1 e xs)"] rest enz by auto
    ultimately show ?thesis by simp
  qed
  then show "\<exists>s'. remove_lbr_state n s e = Inr s' \<and> ring s' (remove1 e xs) \<and> mem s' e = None \<and>
         (\<forall>p. find_lbr_state n s' p = Inr (first_with_pid s p (backward (remove1 e xs))) \<and>
              first_with_pid s p (backward (remove1 e xs)) \<noteq> e)"
    using rem r' gone by blast
qed


text \<open>Witness for C9: inserting the entry at address 2 (process 101) into the store with
  one entry (process 100); removing the entry at address 1 from the store with two
  entries.\<close>

theorem find_after_insert_remove_witness:
  "(\<exists>s'. insert_lbr_state (one_entry\<lparr>mem := (mem one_entry)(2 \<mapsto> entry 101 NULL NULL NULL)\<rparr>) 2 = Inr s'
      \<and> find_lbr_state 3 s' 101 = Inr 2) \<and>
   (\<exists>s'. remove_lbr_state 3 two_entries 1 = Inr s' \<and> ring s' [2] \<and>
      find_lbr_state 3 s' 100 = Inr NULL \<and> find_lbr_state 3 s' 101 = Inr 2)"
proof -
  let ?s = "one_entry\<lparr>mem := (mem one_entry)(2 \<mapsto> entry 101 NULL NULL NULL)\<rparr>"
  have "ring ?s [1]"
    by (simp add: ring_def dlinked_def one_entry_def entry_def)
  from find_after_insert_remove [OF this, of 3 2 "entry 101 NULL NULL NULL", THEN conjunct1]
  have a: "\<exists>s'. insert_lbr_state ?s 2 = Inr s' \<and> find_lbr_state 3 s' 101 = Inr 2"
    by (simp add: ex_defs)
  from find_after_insert_remove [OF ring_two_entries, of 3 1, THEN conjunct2]
  have b: "\<exists>s'. remove_lbr_state 3 two_entries 1 = Inr s' \<and> ring s' [2] \<and>
      find_lbr_state 3 s' 100 = Inr NULL \<and> find_lbr_state 3 s' 101 = Inr 2"
    by (auto simp: two_entries_def entry_def first_with_pid_def backward_def)
  from a b show ?thesis by simp
qed

section \<open>Enabling a process twice\<close>

text \<open>
  Claim C3 as stated (a second enable request for a process already in the store is
  rejected with a negative status and inserts nothing) fails: the enable case never looks
  the process up. On the store with one entry for process 100, an enable request for
  process 100 returns 0 and leaves two entries for process 100 in the ring.
\<close>

theorem enable_twice_counterexample:
  "device_ioctl (Suc (Suc 0)) example_config 100 2 0 \<lparr>req_lbr_select = 0, req_pid = 100\<rparr> 1 0
     one_entry
   = Inr (0, \<lparr>mem = [1 \<mapsto> entry 100 NULL 2 2, 2 \<mapsto> entry 100 NULL 1 1], freed = [],
              lbr_state_list = 1, msr = (\<lambda>r. 0)(456 := 1)\<rparr>)"
  by (auto simp: device_ioctl_def create_lbr_state_def zero_state_def insert_lbr_state_def
      put_lbr_def find_lbr_state_def load_entry_def wrmsrl_def ex_defs op_defs fun_eq_iff)


text \<open>
  Claim C3, amended: on a store that satisfies the store invariant and with a sufficient
  step budget, an enable request (fully transferred, \<open>kmalloc\<close> returning fresh storage
  \<open>a\<close>) for a process \<open>P\<close> that already has an entry \<open>e\<close> returns status 0 and appends
  the new entry \<open>a\<close> to the ring; afterwards both \<open>e\<close> and \<open>a\<close> are members with
  process id \<open>P\<close>.
\<close>

theorem enable_twice_accepted:
  assumes "store_inv c s xs" and "length xs < n"
    and "a \<noteq> NULL" and "mem s a = None"
    and "ioctl_cmd = LIBIHT_LKM_IOC_ENABLE_TRACE c"
    and "P = (if req_pid request \<noteq> 0 then req_pid request else cur)"
    and "e \<in> set xs" and "map_option pid (mem s e) = Some P"
  shows "\<exists>s'. device_ioctl n c cur a 0 request ioctl_cmd ioctl_param s = Inr (0, s') \<and>
     store_inv c s' (xs @ [a]) \<and> e \<noteq> a \<and>
     map_option pid (mem s' e) = Some P \<and> map_option pid (mem s' a) = Some P"
proof -
  let ?v = "(zero_state c)\<lparr>lbr_select := (if req_lbr_select request \<noteq> 0 then req_lbr_select request
       else LBR_SELECT c), pid := P, parent := NULL\<rparr>"
  let ?s3 = "s\<lparr>freed := removeAll a (freed s), mem := (mem s)(a \<mapsto> ?v)\<rparr>"
  have ring: "ring s xs" using assms(1) by (simp add: store_inv_def)
  have anot: "a \<notin> set xs" using ring_live [OF ring, of a] assms(4) by auto
  have ea: "e \<noteq> a" using anot assms(7) by auto
  have run: "device_ioctl n c cur a 0 request ioctl_cmd ioctl_param s =
      bind_err (insert_lbr_state ?s3 a) (\<lambda>s4.
      bind_err (put_lbr n c s4 (req_pid request)) (\<lambda>s5. Inr (0, s5)))"
    using assms(3,5,6) by (simp add: device_ioctl_def create_lbr_state_def store_def load_def)
  have ring3: "ring ?s3 xs"
    by (rule ring_cong [OF ring]) (use anot in auto)
  obtain s4 where ins: "insert_lbr_state ?s3 a = Inr s4" and ring4: "ring s4 (xs @ [a])"
    and nl: "\<And>b. map_option (\<lambda>x. x\<lparr>prev := NULL, next := NULL\<rparr>) (mem s4 b) =
          map_option (\<lambda>x. x\<lparr>prev := NULL, next := NULL\<rparr>) (mem ?s3 b)"
    using insert_lbr_state_ring [OF ring3 anot assms(3), of ?v] by auto
  have len4: "map_option (\<lambda>v. length (entries v)) (mem s4 b) = Some (lbr_capacity c)"
    if "b \<in> set (xs @ [a])" for b
    using nonlink_entries [OF nl [of b]] that assms(1) anot
    by (auto simp: store_inv_def zero_state_def)
  have pid4: "map_option pid (mem s4 b) = map_option pid (mem ?s3 b)" for b
    by (rule nonlink_pid [OF nl])
  have inv4: "store_inv c s4 (xs @ [a])"
    using ring4 len4 by (simp add: store_inv_def)
  obtain s5 where put: "put_lbr n c s4 (req_pid request) = Inr s5" and m5: "mem s5 = mem s4"
    and l5: "lbr_state_list s5 = lbr_state_list s4"
    using put_lbr_ring [OF inv4, of n "req_pid request"] assms(2) by auto
  have "ring s5 (xs @ [a])"
    by (rule ring_cong [OF ring4 l5]) (simp add: m5)
  then have inv5: "store_inv c s5 (xs @ [a])"
    using inv4 by (simp add: store_inv_def m5)
  have "map_option pid (mem s5 e) = Some P" "map_option pid (mem s5 a) = Some P"
    using pid4 [of e] pid4 [of a] ea assms(8) by (simp_all add: m5)
  then show ?thesis
    using run ins put inv5 ea by simp
qed



text \<open>Witness for C3: the enable request for process 100 on the store with one entry for
  process 100.\<close>

theorem enable_twice_accepted_witness:
  "\<exists>s'. device_ioctl 2 example_config 100 2 0 \<lparr>req_lbr_select = 0, req_pid = 100\<rparr> 1 0 one_entry
       = Inr (0, s') \<and>
     store_inv example_config s' [1, 2] \<and>
     map_option pid (mem s' 1) = Some 100 \<and> map_option pid (mem s' 2) = Some 100"
proof -
  have inv: "store_inv example_config one_entry [1]"
    using ring_one_entry by (simp add: store_inv_def ex_defs)
  from enable_twice_accepted [OF inv, of 2 2 1 100 "\<lparr>req_lbr_select = 0, req_pid = 100\<rparr>" 100 1 0]
  show ?thesis
    by (simp add: ex_defs)
qed

end
